theory Spec2Isabelle
  imports Main
begin

section \<open>Strings as the parser sees them\<close>

text \<open>
  The parser of \<^verbatim>\<open>utils/commandParser.ts\<close> works on JavaScript strings. A string is
  modelled as a list of \<^typ>\<open>char\<close>, one \<^typ>\<open>char\<close> per code unit, so the model covers
  the documents whose code units are below 256. In that range the white space of
  \<^verbatim>\<open>String.prototype.trim\<close> and of the regular expression class \<^verbatim>\<open>\s\<close> is
  TAB, LF, VT, FF, CR, SPACE and NO-BREAK SPACE, and the line terminators that the
  regular expression \<^verbatim>\<open>.\<close> refuses are LF and CR.
\<close>

definition is_ws :: "char \<Rightarrow> bool" where
  "is_ws c = (c = CHR 0x09 \<or> c = CHR 0x0A \<or> c = CHR 0x0B \<or> c = CHR 0x0C \<or>
              c = CHR 0x0D \<or> c = CHR 0x20 \<or> c = CHR 0xA0)"

definition is_line_terminator :: "char \<Rightarrow> bool" where
  "is_line_terminator c = (c = CHR 0x0A \<or> c = CHR 0x0D)"

definition is_digit :: "char \<Rightarrow> bool" where
  "is_digit c = (of_char CHR ''0'' \<le> (of_char c :: nat) \<and> (of_char c :: nat) \<le> of_char CHR ''9'')"

text \<open>\<^verbatim>\<open>s.trim()\<close>\<close>

definition trim :: "string \<Rightarrow> string" where
  "trim s = rev (dropWhile is_ws (rev (dropWhile is_ws s)))"

text \<open>\<^verbatim>\<open>s.startsWith(p)\<close>\<close>

definition startsWith :: "string \<Rightarrow> string \<Rightarrow> bool" where
  "startsWith p s = (take (length p) s = p)"

text \<open>\<^verbatim>\<open>text.split('\n')\<close>: always at least one line.\<close>

fun split_lines :: "string \<Rightarrow> string list" where
  "split_lines [] = [[]]"
| "split_lines (c # cs) =
     (if c = CHR 0x0A then [] # split_lines cs
      else (case split_lines cs of
              [] \<Rightarrow> [[c]]
            | l # ls \<Rightarrow> (c # l) # ls))"

text \<open>\<^verbatim>\<open>lines.join('\n')\<close>\<close>

fun join_lines :: "string list \<Rightarrow> string" where
  "join_lines [] = []"
| "join_lines [l] = l"
| "join_lines (l # m # ls) = l @ CHR 0x0A # join_lines (m # ls)"

text \<open>
  \<^verbatim>\<open>parseInt(digits, 10)\<close> on a string of decimal digits. JavaScript rounds the result
  to a double above \<open>2^53\<close>; the model keeps the exact natural number.
\<close>

definition digit_val :: "char \<Rightarrow> nat" where
  "digit_val c = of_char c - of_char CHR ''0''"

definition parseInt :: "string \<Rightarrow> nat" where
  "parseInt ds = foldl (\<lambda>n c. 10 * n + digit_val c) 0 ds"

section \<open>The regular expressions\<close>

datatype SQSCommandType = SEND | RECEIVE | PURGE

definition strip_prefix :: "string \<Rightarrow> string \<Rightarrow> string option" where
  "strip_prefix p s = (if startsWith p s then Some (drop (length p) s) else None)"

text \<open>The alternation \<^verbatim>\<open>(SEND|RECEIVE|PURGE)\<close>, tried in this order.\<close>

definition match_keyword :: "string \<Rightarrow> (SQSCommandType \<times> string) option" where
  "match_keyword s =
     (case strip_prefix ''SEND'' s of
        Some r \<Rightarrow> Some (SEND, r)
      | None \<Rightarrow>
     (case strip_prefix ''RECEIVE'' s of
        Some r \<Rightarrow> Some (RECEIVE, r)
      | None \<Rightarrow>
     (case strip_prefix ''PURGE'' s of
        Some r \<Rightarrow> Some (PURGE, r)
      | None \<Rightarrow> None)))"

text \<open>
  \<^verbatim>\<open>/^(SEND|RECEIVE|PURGE)\s+([^\s]+)/\<close>: the keyword, at least one white space, and
  the longest run of non-white-space characters, which must not be empty. The result
  is the pair of the two groups.
\<close>

definition commandBlockPattern :: "string \<Rightarrow> (SQSCommandType \<times> string) option" where
  "commandBlockPattern s =
     (case match_keyword s of
        None \<Rightarrow> None
      | Some (k, r) \<Rightarrow>
          (let w = takeWhile is_ws r;
               u = takeWhile (\<lambda>c. \<not> is_ws c) (dropWhile is_ws r)
           in if w \<noteq> [] \<and> u \<noteq> [] then Some (k, u) else None))"

text \<open>
  The common start \<^verbatim>\<open>^name\s*:\<close> of the five parameter patterns; the result is the
  text after the colon.
\<close>

definition after_key :: "string \<Rightarrow> string \<Rightarrow> string option" where
  "after_key name s =
     (case strip_prefix name s of
        None \<Rightarrow> None
      | Some r \<Rightarrow>
          (case dropWhile is_ws r of
             [] \<Rightarrow> None
           | c # t \<Rightarrow> if c = CHR '':'' then Some t else None))"

text \<open>
  \<^verbatim>\<open>\s*(.+)$\<close> on the text after the colon. The greedy \<^verbatim>\<open>\s*\<close> takes all leading
  white space; what is left is the group when it is not empty and holds no line
  terminator. When nothing is left, backtracking gives the last white space back to
  the group, which a line terminator cannot be.
\<close>

definition capture_rest :: "string \<Rightarrow> string option" where
  "capture_rest t =
     (let r = dropWhile is_ws t
      in if r \<noteq> [] then (if list_all (\<lambda>c. \<not> is_line_terminator c) r then Some r else None)
         else if t \<noteq> [] \<and> \<not> is_line_terminator (last t) then Some [last t]
         else None)"

text \<open>\<^verbatim>\<open>\s*(\d+)$\<close> on the text after the colon.\<close>

definition capture_digits :: "string \<Rightarrow> string option" where
  "capture_digits t =
     (let r = dropWhile is_ws t
      in if r \<noteq> [] \<and> list_all is_digit r then Some r else None)"

definition profilePattern :: "string \<Rightarrow> string option" where
  "profilePattern s = Option.bind (after_key ''profile'' s) capture_rest"

definition regionPattern :: "string \<Rightarrow> string option" where
  "regionPattern s = Option.bind (after_key ''region'' s) capture_rest"

definition maxMessagesPattern :: "string \<Rightarrow> string option" where
  "maxMessagesPattern s = Option.bind (after_key ''max-messages'' s) capture_digits"

definition visibilityTimeoutPattern :: "string \<Rightarrow> string option" where
  "visibilityTimeoutPattern s = Option.bind (after_key ''visibility-timeout'' s) capture_digits"

definition waitTimePattern :: "string \<Rightarrow> string option" where
  "waitTimePattern s = Option.bind (after_key ''wait-time'' s) capture_digits"

section \<open>Positions and ranges of the editor\<close>

text \<open>
  \<^verbatim>\<open>vscode.Position\<close> and \<^verbatim>\<open>vscode.Range\<close>. The constructor of a position throws
  on a negative line or character; the constructor of a range orders its two ends.
\<close>

datatype error = IllegalArgument

record Position =
  line :: int
  character :: int

record Range =
  start :: Position
  "end" :: Position

definition Position_new :: "int \<Rightarrow> int \<Rightarrow> error + Position" where
  "Position_new l c =
     (if l < 0 then Inl IllegalArgument
      else if c < 0 then Inl IllegalArgument
      else Inr \<lparr>line = l, character = c\<rparr>)"

definition isBefore :: "Position \<Rightarrow> Position \<Rightarrow> bool" where
  "isBefore p q = (line p < line q \<or> (line p = line q \<and> character p < character q))"

definition Range_new :: "Position \<Rightarrow> Position \<Rightarrow> Range" where
  "Range_new p q = (if isBefore p q then \<lparr>start = p, end = q\<rparr> else \<lparr>start = q, end = p\<rparr>)"

section \<open>The host: configuration and JSON\<close>

text \<open>
  What the parser takes from its environment: the two settings
  \<^verbatim>\<open>defaultProfile\<close> and \<^verbatim>\<open>defaultRegion\<close> of the configuration (\<open>None\<close> when
  \<^verbatim>\<open>get\<close> returns \<^verbatim>\<open>undefined\<close>), \<^verbatim>\<open>JSON.parse\<close> (\<open>None\<close> when it throws) and
  the truthiness of a parsed value, which \<^verbatim>\<open>!command.messageBody\<close> tests.
\<close>

record 'j host =
  defaultProfile :: "string option"
  defaultRegion :: "string option"
  JSON_parse :: "string \<Rightarrow> 'j option"
  truthy :: "'j \<Rightarrow> bool"

text \<open>\<^verbatim>\<open>value || fallback\<close> on an optional string: the empty string is falsy.\<close>

definition or_default :: "string option \<Rightarrow> string \<Rightarrow> string" where
  "or_default v d = (case v of None \<Rightarrow> d | Some s \<Rightarrow> if s = [] then d else s)"

section \<open>A model of \<^verbatim>\<open>JSON.parse\<close>\<close>

text \<open>
  The theorems below hold for every host. The concrete inputs are evaluated on the
  host \<open>js_host\<close>, whose \<^verbatim>\<open>JSON.parse\<close> follows the JSON grammar: a lexer that reads
  one character at a time, and a stack machine that reads one token at a time. A
  string value is the list of its code units. A number is kept as its decimal
  mantissa and exponent (JavaScript rounds it to a double); an object is kept as the
  list of its members in the order of the text.
\<close>

datatype json =
    JNull
  | JBool bool
  | JNumber int int
  | JString "nat list"
  | JArray "json list"
  | JObject "(nat list \<times> json) list"

datatype token =
    TLBrace | TRBrace | TLBrack | TRBrack | TColon | TComma
  | TString "nat list" | TNumber int int | TTrue | TFalse | TNull

datatype numphase = NMinus | NZero | NInt | NDot | NFrac | NE | NESign | NExp

record numacc =
  neg :: bool
  mant :: nat
  fdig :: nat
  eneg :: bool
  ex :: nat

datatype lexmode =
    LStart
  | LStr "nat list"
  | LEsc "nat list"
  | LHex "nat list" "nat list"
  | LNum numphase numacc
  | LLit string token

definition num0 :: numacc where
  "num0 = \<lparr>neg = False, mant = 0, fdig = 0, eneg = False, ex = 0\<rparr>"

definition num_token :: "numacc \<Rightarrow> token" where
  "num_token a =
     TNumber (if neg a then - int (mant a) else int (mant a))
             ((if eneg a then - int (ex a) else int (ex a)) - int (fdig a))"

definition hex_val :: "char \<Rightarrow> nat option" where
  "hex_val c =
     (let n = (of_char c :: nat)
      in if 48 \<le> n \<and> n \<le> 57 then Some (n - 48)
         else if 65 \<le> n \<and> n \<le> 70 then Some (n - 55)
         else if 97 \<le> n \<and> n \<le> 102 then Some (n - 87)
         else None)"

text \<open>A character where a token may start.\<close>

definition lex_start :: "char \<Rightarrow> (token list \<times> lexmode) option" where
  "lex_start c =
     (if c = CHR 0x20 \<or> c = CHR 0x09 \<or> c = CHR 0x0A \<or> c = CHR 0x0D then Some ([], LStart)
      else if c = CHR ''{'' then Some ([TLBrace], LStart)
      else if c = CHR ''}'' then Some ([TRBrace], LStart)
      else if c = CHR ''['' then Some ([TLBrack], LStart)
      else if c = CHR '']'' then Some ([TRBrack], LStart)
      else if c = CHR '':'' then Some ([TColon], LStart)
      else if c = CHR '','' then Some ([TComma], LStart)
      else if c = CHR 0x22 then Some ([], LStr [])
      else if c = CHR ''-'' then Some ([], LNum NMinus (num0\<lparr>neg := True\<rparr>))
      else if c = CHR ''0'' then Some ([], LNum NZero num0)
      else if is_digit c then Some ([], LNum NInt (num0\<lparr>mant := digit_val c\<rparr>))
      else if c = CHR ''t'' then Some ([], LLit ''rue'' TTrue)
      else if c = CHR ''f'' then Some ([], LLit ''alse'' TFalse)
      else if c = CHR ''n'' then Some ([], LLit ''ull'' TNull)
      else None)"

text \<open>A character after a complete number: the number ends, the character starts anew.\<close>

definition num_end :: "numacc \<Rightarrow> char \<Rightarrow> (token list \<times> lexmode) option" where
  "num_end a c =
     (case lex_start c of
        None \<Rightarrow> None
      | Some (ts, m) \<Rightarrow> Some (num_token a # ts, m))"

definition is_e :: "char \<Rightarrow> bool" where
  "is_e c = (c = CHR ''e'' \<or> c = CHR ''E'')"

definition num_step :: "numphase \<Rightarrow> numacc \<Rightarrow> char \<Rightarrow> (token list \<times> lexmode) option" where
  "num_step ph a c =
     (case ph of
        NMinus \<Rightarrow>
          if c = CHR ''0'' then Some ([], LNum NZero a)
          else if is_digit c then Some ([], LNum NInt (a\<lparr>mant := digit_val c\<rparr>))
          else None
      | NZero \<Rightarrow>
          if c = CHR ''.'' then Some ([], LNum NDot a)
          else if is_e c then Some ([], LNum NE a)
          else num_end a c
      | NInt \<Rightarrow>
          if is_digit c then Some ([], LNum NInt (a\<lparr>mant := 10 * mant a + digit_val c\<rparr>))
          else if c = CHR ''.'' then Some ([], LNum NDot a)
          else if is_e c then Some ([], LNum NE a)
          else num_end a c
      | NDot \<Rightarrow>
          if is_digit c
          then Some ([], LNum NFrac (a\<lparr>mant := 10 * mant a + digit_val c, fdig := fdig a + 1\<rparr>))
          else None
      | NFrac \<Rightarrow>
          if is_digit c
          then Some ([], LNum NFrac (a\<lparr>mant := 10 * mant a + digit_val c, fdig := fdig a + 1\<rparr>))
          else if is_e c then Some ([], LNum NE a)
          else num_end a c
      | NE \<Rightarrow>
          if c = CHR ''+'' then Some ([], LNum NESign a)
          else if c = CHR ''-'' then Some ([], LNum NESign (a\<lparr>eneg := True\<rparr>))
          else if is_digit c then Some ([], LNum NExp (a\<lparr>ex := digit_val c\<rparr>))
          else None
      | NESign \<Rightarrow>
          if is_digit c then Some ([], LNum NExp (a\<lparr>ex := digit_val c\<rparr>)) else None
      | NExp \<Rightarrow>
          if is_digit c then Some ([], LNum NExp (a\<lparr>ex := 10 * ex a + digit_val c\<rparr>))
          else num_end a c)"

definition esc_val :: "char \<Rightarrow> nat option" where
  "esc_val c =
     (if c = CHR 0x22 then Some 0x22
      else if c = CHR 0x5C then Some 0x5C
      else if c = CHR ''/'' then Some 0x2F
      else if c = CHR ''b'' then Some 0x08
      else if c = CHR ''f'' then Some 0x0C
      else if c = CHR ''n'' then Some 0x0A
      else if c = CHR ''r'' then Some 0x0D
      else if c = CHR ''t'' then Some 0x09
      else None)"

definition lex_step :: "lexmode \<Rightarrow> char \<Rightarrow> (token list \<times> lexmode) option" where
  "lex_step m c =
     (case m of
        LStart \<Rightarrow> lex_start c
      | LStr acc \<Rightarrow>
          if c = CHR 0x22 then Some ([TString (rev acc)], LStart)
          else if c = CHR 0x5C then Some ([], LEsc acc)
          else if (of_char c :: nat) < 0x20 then None
          else Some ([], LStr (of_char c # acc))
      | LEsc acc \<Rightarrow>
          if c = CHR ''u'' then Some ([], LHex acc [])
          else (case esc_val c of
                  None \<Rightarrow> None
                | Some n \<Rightarrow> Some ([], LStr (n # acc)))
      | LHex acc ds \<Rightarrow>
          (case hex_val c of
             None \<Rightarrow> None
           | Some d \<Rightarrow>
               if length ds = 3
               then Some ([], LStr (foldl (\<lambda>n h. 16 * n + h) 0 (ds @ [d]) # acc))
               else Some ([], LHex acc (ds @ [d])))
      | LNum ph a \<Rightarrow> num_step ph a c
      | LLit expected t \<Rightarrow>
          (case expected of
             [] \<Rightarrow> None
           | e # es \<Rightarrow>
               if c \<noteq> e then None
               else if es = [] then Some ([t], LStart)
               else Some ([], LLit es t)))"

definition lex_end :: "lexmode \<Rightarrow> token list option" where
  "lex_end m =
     (case m of
        LStart \<Rightarrow> Some []
      | LNum ph a \<Rightarrow>
          if ph = NZero \<or> ph = NInt \<or> ph = NFrac \<or> ph = NExp then Some [num_token a] else None
      | _ \<Rightarrow> None)"

fun lex :: "lexmode \<Rightarrow> string \<Rightarrow> token list option" where
  "lex m [] = lex_end m"
| "lex m (c # cs) =
     (case lex_step m c of
        None \<Rightarrow> None
      | Some (ts, m1) \<Rightarrow>
          (case lex m1 cs of
             None \<Rightarrow> None
           | Some us \<Rightarrow> Some (ts @ us)))"

text \<open>
  The stack machine. A frame is an open array with its elements so far, or an open
  object with its members so far and the key that waits for its value; both lists are
  kept in reverse.
\<close>

datatype frame = FArr "json list" | FObj "(nat list \<times> json) list" "nat list"

datatype pmode = MValue | MArrStart | MObjStart | MKey | MColon | MAfter | MDone json

definition deliver :: "json \<Rightarrow> frame list \<Rightarrow> pmode \<times> frame list" where
  "deliver v st =
     (case st of
        [] \<Rightarrow> (MDone v, [])
      | FArr xs # r \<Rightarrow> (MAfter, FArr (v # xs) # r)
      | FObj kvs k # r \<Rightarrow> (MAfter, FObj ((k, v) # kvs) k # r))"

definition value_tok :: "frame list \<Rightarrow> token \<Rightarrow> (pmode \<times> frame list) option" where
  "value_tok st t =
     (case t of
        TLBrace \<Rightarrow> Some (MObjStart, FObj [] [] # st)
      | TLBrack \<Rightarrow> Some (MArrStart, FArr [] # st)
      | TString s \<Rightarrow> Some (deliver (JString s) st)
      | TNumber m e \<Rightarrow> Some (deliver (JNumber m e) st)
      | TTrue \<Rightarrow> Some (deliver (JBool True) st)
      | TFalse \<Rightarrow> Some (deliver (JBool False) st)
      | TNull \<Rightarrow> Some (deliver JNull st)
      | _ \<Rightarrow> None)"

definition key_tok :: "frame list \<Rightarrow> token \<Rightarrow> (pmode \<times> frame list) option" where
  "key_tok st t =
     (case t of
        TString s \<Rightarrow>
          (case st of
             FObj kvs k # r \<Rightarrow> Some (MColon, FObj kvs s # r)
           | _ \<Rightarrow> None)
      | _ \<Rightarrow> None)"

definition close_arr :: "frame list \<Rightarrow> (pmode \<times> frame list) option" where
  "close_arr st = (case st of FArr xs # r \<Rightarrow> Some (deliver (JArray (rev xs)) r) | _ \<Rightarrow> None)"

definition close_obj :: "frame list \<Rightarrow> (pmode \<times> frame list) option" where
  "close_obj st = (case st of FObj kvs k # r \<Rightarrow> Some (deliver (JObject (rev kvs)) r) | _ \<Rightarrow> None)"

definition tok_step :: "pmode \<Rightarrow> frame list \<Rightarrow> token \<Rightarrow> (pmode \<times> frame list) option" where
  "tok_step m st t =
     (case m of
        MValue \<Rightarrow> value_tok st t
      | MArrStart \<Rightarrow> if t = TRBrack then close_arr st else value_tok st t
      | MObjStart \<Rightarrow> if t = TRBrace then close_obj st else key_tok st t
      | MKey \<Rightarrow> key_tok st t
      | MColon \<Rightarrow> if t = TColon then Some (MValue, st) else None
      | MAfter \<Rightarrow>
          (case st of
             [] \<Rightarrow> None
           | FArr xs # r \<Rightarrow>
               if t = TComma then Some (MValue, st)
               else if t = TRBrack then close_arr st
               else None
           | FObj kvs k # r \<Rightarrow>
               if t = TComma then Some (MKey, st)
               else if t = TRBrace then close_obj st
               else None)
      | MDone v \<Rightarrow> None)"

fun run_tokens :: "pmode \<Rightarrow> frame list \<Rightarrow> token list \<Rightarrow> json option" where
  "run_tokens m st [] = (case m of MDone v \<Rightarrow> Some v | _ \<Rightarrow> None)"
| "run_tokens m st (t # ts) =
     (case tok_step m st t of
        None \<Rightarrow> None
      | Some (m1, st1) \<Rightarrow> run_tokens m1 st1 ts)"

definition json_parse :: "string \<Rightarrow> json option" where
  "json_parse s =
     (case lex LStart s of
        None \<Rightarrow> None
      | Some ts \<Rightarrow> run_tokens MValue [] ts)"

text \<open>
  The falsy values of JavaScript among the JSON values: \<^verbatim>\<open>null\<close>, \<^verbatim>\<open>false\<close>, zero
  and the empty string.
\<close>

fun json_truthy :: "json \<Rightarrow> bool" where
  "json_truthy JNull = False"
| "json_truthy (JBool b) = b"
| "json_truthy (JNumber m e) = (m \<noteq> 0)"
| "json_truthy (JString s) = (s \<noteq> [])"
| "json_truthy (JArray xs) = True"
| "json_truthy (JObject kvs) = True"

text \<open>A host with the given settings and the JSON model.\<close>

definition js_host :: "string option \<Rightarrow> string option \<Rightarrow> json host" where
  "js_host p r = \<lparr>defaultProfile = p, defaultRegion = r, JSON_parse = json_parse,
                  truthy = json_truthy\<rparr>"

section \<open>Commands and the scanner\<close>

record 'j SQSCommand =
  type :: SQSCommandType
  queueUrl :: string
  profile :: string
  region :: string
  messageBody :: "'j option"
  messageAttributes :: "'j option"
  maxMessages :: "nat option"
  visibilityTimeout :: "nat option"
  waitTimeSeconds :: "nat option"
  range_cmd :: "Range option"

text \<open>The local variables of \<^verbatim>\<open>parseSQSCommands\<close>.\<close>

record 'j pstate =
  currentCommand :: "'j SQSCommand option"
  commandBodyStartLine :: int
  commandBodyLines :: "string list"
  inJsonBody :: bool
  jsonStartLine :: int
  bracesCount :: int
  commands :: "'j SQSCommand list"

definition init_state :: "'j pstate" where
  "init_state = \<lparr>currentCommand = None, commandBodyStartLine = - 1, commandBodyLines = [],
                 inJsonBody = False, jsonStartLine = - 1, bracesCount = 0, commands = []\<rparr>"

text \<open>\<^verbatim>\<open>!command.messageBody\<close>\<close>

definition body_missing :: "'j host \<Rightarrow> 'j option \<Rightarrow> bool" where
  "body_missing H b = (case b of None \<Rightarrow> True | Some v \<Rightarrow> \<not> truthy H v)"

text \<open>
  \<^verbatim>\<open>try { command.messageBody = JSON.parse(bodyLines.join('\n')) } catch { }\<close>
\<close>

definition try_parse_body :: "'j host \<Rightarrow> string list \<Rightarrow> 'j SQSCommand \<Rightarrow> 'j SQSCommand" where
  "try_parse_body H bodyLines command =
     (case JSON_parse H (join_lines bodyLines) of
        None \<Rightarrow> command
      | Some v \<Rightarrow> command\<lparr>messageBody := Some v\<rparr>)"

definition finalizeCommand ::
  "'j host \<Rightarrow> 'j SQSCommand \<Rightarrow> int \<Rightarrow> int \<Rightarrow> string list \<Rightarrow> error + 'j SQSCommand" where
  "finalizeCommand H command startLine endLine bodyLines =
     (case Position_new startLine 0 of
        Inl e \<Rightarrow> Inl e
      | Inr p \<Rightarrow>
     (case Position_new endLine 1000 of
        Inl e \<Rightarrow> Inl e
      | Inr q \<Rightarrow>
          (let command1 = command\<lparr>range_cmd := Some (Range_new p q)\<rparr>
           in if type command1 = SEND \<and> body_missing H (messageBody command1) \<and> bodyLines \<noteq> []
              then Inr (try_parse_body H bodyLines command1)
              else Inr command1)))"

text \<open>
  \<^verbatim>\<open>if (currentCommand && currentCommand.type && currentCommand.queueUrl)
     { finalizeCommand(...); commands.push(currentCommand); }\<close>
  The type of a command is one of three non-empty strings, so only the queue URL can
  be falsy.
\<close>

definition push_finalized :: "'j host \<Rightarrow> int \<Rightarrow> 'j pstate \<Rightarrow> error + (bool \<times> 'j pstate)" where
  "push_finalized H endLine st =
     (case currentCommand st of
        None \<Rightarrow> Inr (False, st)
      | Some command \<Rightarrow>
          if queueUrl command = [] then Inr (False, st)
          else (case finalizeCommand H command (commandBodyStartLine st) endLine
                       (commandBodyLines st) of
                  Inl e \<Rightarrow> Inl e
                | Inr c \<Rightarrow> Inr (True, st\<lparr>commands := commands st @ [c]\<rparr>)))"

text \<open>The branch of a header line (source lines 39 to 62).\<close>

definition header_branch ::
  "'j host \<Rightarrow> int \<Rightarrow> SQSCommandType \<Rightarrow> string \<Rightarrow> 'j pstate \<Rightarrow> error + 'j pstate" where
  "header_branch H i commandType url st =
     (case push_finalized H (i - 1) st of
        Inl e \<Rightarrow> Inl e
      | Inr (pushed, st1) \<Rightarrow>
          Inr ((if pushed then st1\<lparr>commandBodyLines := []\<rparr> else st1)
               \<lparr>currentCommand := Some
                  \<lparr>type = commandType, queueUrl = url,
                   profile = or_default (defaultProfile H) ''default'',
                   region = or_default (defaultRegion H) ''us-east-1'',
                   messageBody = None, messageAttributes = None, maxMessages = None,
                   visibilityTimeout = None, waitTimeSeconds = None, range_cmd = None\<rparr>,
                commandBodyStartLine := i,
                inJsonBody := False,
                jsonStartLine := - 1\<rparr>))"

text \<open>The three optional parameters of a RECEIVE command (source lines 80 to 101).\<close>

definition receive_param :: "string \<Rightarrow> 'j SQSCommand \<Rightarrow> 'j SQSCommand option" where
  "receive_param ln command =
     (case maxMessagesPattern ln of
        Some ds \<Rightarrow> Some (command\<lparr>maxMessages := Some (parseInt ds)\<rparr>)
      | None \<Rightarrow>
     (case visibilityTimeoutPattern ln of
        Some ds \<Rightarrow> Some (command\<lparr>visibilityTimeout := Some (parseInt ds)\<rparr>)
      | None \<Rightarrow>
     (case waitTimePattern ln of
        Some ds \<Rightarrow> Some (command\<lparr>waitTimeSeconds := Some (parseInt ds)\<rparr>)
      | None \<Rightarrow> None)))"

text \<open>The end of the parameter branch: the start of a JSON body, or the delimiter
  (source lines 103 to 123).\<close>

definition body_or_delimiter ::
  "'j host \<Rightarrow> int \<Rightarrow> string \<Rightarrow> 'j SQSCommand \<Rightarrow> 'j pstate \<Rightarrow> error + 'j pstate" where
  "body_or_delimiter H i ln command st =
     (if type command = SEND \<and> startsWith ''{'' ln
      then Inr (st\<lparr>inJsonBody := True, jsonStartLine := i, bracesCount := 1,
                  commandBodyLines := commandBodyLines st @ [ln]\<rparr>)
      else if ln = ''###''
      then (case push_finalized H i st of
              Inl e \<Rightarrow> Inl e
            | Inr (pushed, st1) \<Rightarrow>
                Inr ((if pushed then st1\<lparr>commandBodyLines := []\<rparr> else st1)
                     \<lparr>currentCommand := None, commandBodyStartLine := - 1,
                      inJsonBody := False, jsonStartLine := - 1\<rparr>))
      else Inr st)"

text \<open>The parameter branch (source lines 64 to 124).\<close>

definition param_branch ::
  "'j host \<Rightarrow> int \<Rightarrow> string \<Rightarrow> 'j SQSCommand \<Rightarrow> 'j pstate \<Rightarrow> error + 'j pstate" where
  "param_branch H i ln command st =
     (case profilePattern ln of
        Some v \<Rightarrow> Inr (st\<lparr>currentCommand := Some (command\<lparr>profile := trim v\<rparr>)\<rparr>)
      | None \<Rightarrow>
     (case regionPattern ln of
        Some v \<Rightarrow> Inr (st\<lparr>currentCommand := Some (command\<lparr>region := trim v\<rparr>)\<rparr>)
      | None \<Rightarrow>
     (case (if type command = RECEIVE then receive_param ln command else None) of
        Some command1 \<Rightarrow> Inr (st\<lparr>currentCommand := Some command1\<rparr>)
      | None \<Rightarrow> body_or_delimiter H i ln command st)))"

text \<open>The loop over the characters of a body line (source lines 130 to 136).\<close>

definition countBraces :: "int \<Rightarrow> string \<Rightarrow> int" where
  "countBraces n ln =
     foldl (\<lambda>k c. if c = CHR ''{'' then k + 1 else if c = CHR ''}'' then k - 1 else k) n ln"

text \<open>The branch of a line inside a JSON body (source lines 126 to 152).\<close>

definition json_branch :: "'j host \<Rightarrow> string \<Rightarrow> 'j pstate \<Rightarrow> 'j pstate" where
  "json_branch H ln st =
     (let st1 = st\<lparr>commandBodyLines := commandBodyLines st @ [ln],
                   bracesCount := countBraces (bracesCount st) ln\<rparr>
      in if bracesCount st1 = 0
         then (let st2 = st1\<lparr>inJsonBody := False\<rparr>
               in case currentCommand st2 of
                    None \<Rightarrow> st2
                  | Some command \<Rightarrow>
                      if type command = SEND
                      then st2\<lparr>currentCommand :=
                                 Some (try_parse_body H (commandBodyLines st2) command)\<rparr>
                      else st2)
         else st1)"

text \<open>One turn of the loop over the lines, on line \<open>i\<close> (source lines 30 to 152).\<close>

definition step :: "'j host \<Rightarrow> int \<Rightarrow> string \<Rightarrow> 'j pstate \<Rightarrow> error + 'j pstate" where
  "step H i raw st =
     (let ln = trim raw
      in if ln = [] \<or> startsWith ''#'' ln then Inr st
         else (case commandBlockPattern ln of
                 Some (commandType, url) \<Rightarrow> header_branch H i commandType url st
               | None \<Rightarrow>
                   (case currentCommand st of
                      Some command \<Rightarrow>
                        if \<not> inJsonBody st then param_branch H i ln command st
                        else Inr (json_branch H ln st)
                    | None \<Rightarrow>
                        if inJsonBody st then Inr (json_branch H ln st) else Inr st)))"

text \<open>The loop over the lines, from line \<open>i\<close> on.\<close>

fun scan :: "'j host \<Rightarrow> int \<Rightarrow> string list \<Rightarrow> 'j pstate \<Rightarrow> error + 'j pstate" where
  "scan H i [] st = Inr st"
| "scan H i (raw # rest) st =
     (case step H i raw st of
        Inl e \<Rightarrow> Inl e
      | Inr st1 \<Rightarrow> scan H (i + 1) rest st1)"

text \<open>The parser on the list of the lines of the document.\<close>

definition parseLines :: "'j host \<Rightarrow> string list \<Rightarrow> error + 'j SQSCommand list" where
  "parseLines H lns =
     (case scan H 0 lns init_state of
        Inl e \<Rightarrow> Inl e
      | Inr st \<Rightarrow>
          (case push_finalized H (int (length lns) - 1) st of
             Inl e \<Rightarrow> Inl e
           | Inr (pushed, st1) \<Rightarrow> Inr (commands st1)))"

definition parseSQSCommands :: "'j host \<Rightarrow> string \<Rightarrow> error + 'j SQSCommand list" where
  "parseSQSCommands H text = parseLines H (split_lines text)"

section \<open>Notions used in the statements\<close>

text \<open>A line that the scanner skips: blank after trimming, or a comment.\<close>

definition skipped :: "string \<Rightarrow> bool" where
  "skipped raw = (trim raw = [] \<or> startsWith ''#'' (trim raw))"

text \<open>A line that opens a command.\<close>

definition is_header :: "string \<Rightarrow> bool" where
  "is_header raw = (commandBlockPattern (trim raw) \<noteq> None)"

text \<open>
  What the loop keeps true before it reads line \<open>i\<close>: an open command started on an
  earlier line and has a queue URL; without an open command no body is being read.
\<close>

definition wf_state :: "int \<Rightarrow> 'j pstate \<Rightarrow> bool" where
  "wf_state i st =
     (case currentCommand st of
        None \<Rightarrow> commandBodyLines st = [] \<and> \<not> inJsonBody st
      | Some c \<Rightarrow> 0 \<le> commandBodyStartLine st \<and> commandBodyStartLine st < i \<and> queueUrl c \<noteq> [])"

text \<open>
  What every command of the scanner satisfies: the three strings are not empty, and
  the three numbers are set on RECEIVE commands only.
\<close>

definition cmd_ok :: "'j SQSCommand \<Rightarrow> bool" where
  "cmd_ok c =
     (queueUrl c \<noteq> [] \<and> profile c \<noteq> [] \<and> region c \<noteq> [] \<and>
      (type c \<noteq> RECEIVE \<longrightarrow>
         maxMessages c = None \<and> visibilityTimeout c = None \<and> waitTimeSeconds c = None))"

definition cmds_ok :: "'j pstate \<Rightarrow> bool" where
  "cmds_ok st =
     ((\<forall>c \<in> set (commands st). cmd_ok c) \<and>
      (case currentCommand st of None \<Rightarrow> True | Some c \<Rightarrow> cmd_ok c))"

text \<open>A command as the header line leaves it, with the fallbacks of an empty configuration.\<close>

definition fresh_command :: "SQSCommandType \<Rightarrow> string \<Rightarrow> json SQSCommand" where
  "fresh_command k u =
     \<lparr>type = k, queueUrl = u, profile = ''default'', region = ''us-east-1'',
      messageBody = None, messageAttributes = None, maxMessages = None,
      visibilityTimeout = None, waitTimeSeconds = None, range_cmd = None\<rparr>"

definition lines_range :: "int \<Rightarrow> int \<Rightarrow> Range" where
  "lines_range s e = \<lparr>start = \<lparr>line = s, character = 0\<rparr>, end = \<lparr>line = e, character = 1000\<rparr>\<rparr>"

text \<open>
  A command whose range is moved down by \<open>off\<close> lines, and the relation between the
  state of the scanner on a document and its state on the tail of the document that
  starts \<open>off\<close> lines further down, at a header line: the commands sealed before the
  tail are \<open>pfx\<close>. The brace count is compared only while a body is read, since the
  start of a body resets it.
\<close>

definition shift_range :: "int \<Rightarrow> Range \<Rightarrow> Range" where
  "shift_range off r =
     \<lparr>start = \<lparr>line = line (start r) + off, character = character (start r)\<rparr>,
      end = \<lparr>line = line (end r) + off, character = character (end r)\<rparr>\<rparr>"

definition shift_cmd :: "int \<Rightarrow> 'j SQSCommand \<Rightarrow> 'j SQSCommand" where
  "shift_cmd off c = c\<lparr>range_cmd := map_option (shift_range off) (range_cmd c)\<rparr>"

definition sim :: "int \<Rightarrow> 'j SQSCommand list \<Rightarrow> 'j pstate \<Rightarrow> 'j pstate \<Rightarrow> bool" where
  "sim off pfx s t =
     (currentCommand s = currentCommand t \<and>
      (currentCommand t \<noteq> None \<longrightarrow> commandBodyStartLine s = commandBodyStartLine t + off) \<and>
      commandBodyLines s = commandBodyLines t \<and>
      inJsonBody s = inJsonBody t \<and>
      (inJsonBody t \<longrightarrow> bracesCount s = bracesCount t) \<and>
      commands s = pfx @ map (shift_cmd off) (commands t))"

text \<open>
  The lines of a block that the scanner does not skip, trimmed; and the brace count,
  started at \<open>n\<close>, that is not zero at the end of any of the given lines.
\<close>

definition kept :: "string list \<Rightarrow> string list" where
  "kept ls = map trim (filter (\<lambda>l. \<not> skipped l) ls)"

fun stays_open :: "int \<Rightarrow> string list \<Rightarrow> bool" where
  "stays_open n [] = True"
| "stays_open n (k # ks) = (countBraces n k \<noteq> 0 \<and> stays_open (countBraces n k) ks)"

text \<open>
  The open command is a SEND with the body \<open>v\<close>, and the accumulated body lines are
  the lines \<open>B\<close> followed by lines that are not empty and do not start with white
  space.
\<close>

definition stored :: "'j host \<Rightarrow> string list \<Rightarrow> 'j \<Rightarrow> 'j pstate \<Rightarrow> bool" where
  "stored H B v st =
     (\<exists>c xs. currentCommand st = Some c \<and> type c = SEND \<and> messageBody c = Some v \<and>
        commandBodyLines st = B @ xs \<and> (\<forall>x \<in> set xs. x \<noteq> [] \<and> \<not> is_ws (hd x)))"

text \<open>
  The body of a command once it is sealed (source lines 175 to 182): when the command
  is a SEND whose body is missing and body lines were accumulated, their parse if it
  succeeds; the body it had otherwise.
\<close>

definition sealed_body :: "'j host \<Rightarrow> 'j SQSCommand \<Rightarrow> string list \<Rightarrow> 'j option" where
  "sealed_body H c bl =
     (if type c = SEND \<and> body_missing H (messageBody c) \<and> bl \<noteq> []
      then (case JSON_parse H (join_lines bl) of
              None \<Rightarrow> messageBody c
            | Some v \<Rightarrow> Some v)
      else messageBody c)"

section \<open>The scanner never fails\<close>

lemma match_keyword_nonempty: "match_keyword s = Some (k, r) \<Longrightarrow> s \<noteq> [] \<and> \<not> startsWith ''#'' s"
  by (cases s) (auto simp: match_keyword_def strip_prefix_def startsWith_def split: option.splits if_splits)

lemma header_not_skipped: "is_header raw \<Longrightarrow> \<not> skipped raw"
  unfolding is_header_def skipped_def commandBlockPattern_def
  by (auto split: option.splits dest: match_keyword_nonempty)

lemma pattern_url_nonempty: "commandBlockPattern s = Some (k, u) \<Longrightarrow> u \<noteq> []"
  by (auto simp: commandBlockPattern_def Let_def split: option.splits if_splits)

lemma not_skipped_not_delimiter: "\<not> skipped raw \<Longrightarrow> trim raw \<noteq> ''###''"
  by (auto simp: skipped_def startsWith_def)

lemma step_header:
  "commandBlockPattern (trim raw) = Some (k, u) \<Longrightarrow> step H i raw st = header_branch H i k u st"
  using header_not_skipped[of raw]
  by (simp add: step_def is_header_def skipped_def)

lemma step_other:
  "\<not> skipped raw \<Longrightarrow> \<not> is_header raw \<Longrightarrow>
   step H i raw st =
     (case currentCommand st of
        Some command \<Rightarrow>
          if \<not> inJsonBody st then param_branch H i (trim raw) command st
          else Inr (json_branch H (trim raw) st)
      | None \<Rightarrow> if inJsonBody st then Inr (json_branch H (trim raw) st) else Inr st)"
proof -
  assume a: "\<not> skipped raw" and b: "\<not> is_header raw"
  from b have "commandBlockPattern (trim raw) = None"
    by (cases "commandBlockPattern (trim raw)") (auto simp: is_header_def)
  with a show ?thesis by (simp add: step_def skipped_def Let_def)
qed

lemma finalizeCommand_ok:
  "0 \<le> s \<Longrightarrow> 0 \<le> e \<Longrightarrow>
   finalizeCommand H c s e bl =
     Inr (let c1 = c\<lparr>range_cmd := Some (Range_new \<lparr>line = s, character = 0\<rparr> \<lparr>line = e, character = 1000\<rparr>)\<rparr>
          in if type c = SEND \<and> body_missing H (messageBody c) \<and> bl \<noteq> []
             then try_parse_body H bl c1 else c1)"
  by (simp add: finalizeCommand_def Position_new_def Let_def)

lemma push_finalized_ok:
  "wf_state i st \<Longrightarrow> 0 \<le> e \<Longrightarrow>
   push_finalized H e st =
     (case currentCommand st of
        None \<Rightarrow> Inr (False, st)
      | Some c \<Rightarrow>
          Inr (True, st\<lparr>commands := commands st @
            [let c1 = c\<lparr>range_cmd := Some (Range_new \<lparr>line = commandBodyStartLine st, character = 0\<rparr>
                                                      \<lparr>line = e, character = 1000\<rparr>)\<rparr>
             in if type c = SEND \<and> body_missing H (messageBody c) \<and> commandBodyLines st \<noteq> []
                then try_parse_body H (commandBodyLines st) c1 else c1]\<rparr>))"
  by (auto simp: push_finalized_def wf_state_def finalizeCommand_ok split: option.splits)

lemma header_branch_wf:
  assumes "wf_state i st" "0 \<le> i" "u \<noteq> []"
  shows "\<exists>st1. header_branch H i k u st = Inr st1 \<and> wf_state (i + 1) st1"
proof (cases "currentCommand st")
  case None
  then show ?thesis using assms
    by (simp add: header_branch_def push_finalized_def wf_state_def)
next
  case (Some c)
  with assms have "0 \<le> i - 1" by (simp add: wf_state_def)
  then show ?thesis using assms Some
    by (simp add: header_branch_def push_finalized_ok[of i] wf_state_def)
qed

lemma receive_param_url:
  "receive_param ln c = Some c1 \<Longrightarrow> queueUrl c1 = queueUrl c"
  by (auto simp: receive_param_def split: option.splits)

lemma param_branch_wf:
  assumes "wf_state i st" "currentCommand st = Some c" "\<not> startsWith ''#'' ln"
  shows "\<exists>st1. param_branch H i ln c st = Inr st1 \<and> wf_state (i + 1) st1"
proof -
  have d: "ln \<noteq> ''###''" using assms(3) by (auto simp: startsWith_def)
  show ?thesis using assms(1,2) d
    by (auto simp: param_branch_def body_or_delimiter_def wf_state_def
             split: option.splits dest: receive_param_url)
qed

lemma json_branch_wf:
  assumes "wf_state i st" "currentCommand st \<noteq> None"
  shows "wf_state (i + 1) (json_branch H ln st)"
  using assms
  by (auto simp: json_branch_def wf_state_def Let_def try_parse_body_def split: option.splits)

lemma step_wf:
  assumes "wf_state i st" "0 \<le> i"
  shows "\<exists>st1. step H i raw st = Inr st1 \<and> wf_state (i + 1) st1"
proof (cases "skipped raw")
  case True
  then have "step H i raw st = Inr st" by (simp add: skipped_def step_def)
  moreover have "wf_state (i + 1) st" using assms(1) by (auto simp: wf_state_def split: option.splits)
  ultimately show ?thesis by simp
next
  case ns: False
  show ?thesis
  proof (cases "commandBlockPattern (trim raw)")
    case (Some ku)
    obtain k u where ku: "ku = (k, u)" by (cases ku)
    with Some have "u \<noteq> []" by (auto dest: pattern_url_nonempty)
    then show ?thesis using Some ku assms by (simp add: step_header header_branch_wf)
  next
    case None
    then have nh: "\<not> is_header raw" by (simp add: is_header_def)
    show ?thesis
    proof (cases "currentCommand st")
      case cn: None
      then show ?thesis using assms(1) ns nh
        by (auto simp: step_other wf_state_def)
    next
      case (Some c)
      have "\<not> startsWith ''#'' (trim raw)" using ns by (simp add: skipped_def)
      then show ?thesis using assms(1) ns nh Some
        by (auto simp: step_other param_branch_wf json_branch_wf)
    qed
  qed
qed

lemma scan_wf:
  "wf_state i st \<Longrightarrow> 0 \<le> i \<Longrightarrow>
   \<exists>st1. scan H i lns st = Inr st1 \<and> wf_state (i + int (length lns)) st1"
proof (induction lns arbitrary: i st)
  case Nil
  then show ?case by simp
next
  case (Cons raw rest)
  from step_wf[OF Cons.prems] obtain st1 where
    s: "step H i raw st = Inr st1" and w: "wf_state (i + 1) st1" by blast
  from Cons.IH[OF w] Cons.prems(2) obtain st2 where
    "scan H (i + 1) rest st1 = Inr st2" "wf_state (i + 1 + int (length rest)) st2" by auto
  with s show ?case by (simp add: ac_simps)
qed

lemma wf_init: "wf_state 0 init_state"
  by (simp add: wf_state_def init_state_def)

lemma split_lines_nonempty: "split_lines s \<noteq> []"
  by (induction s) (auto split: list.splits)

text \<open>
  Claim C3. For every host (every pair of configured defaults, every behaviour of
  \<^verbatim>\<open>JSON.parse\<close>) and every document, the parser returns a list of commands: no
  constructor of a position is ever called with a negative line, and a failing
  \<^verbatim>\<open>JSON.parse\<close> is caught.
\<close>

theorem parseSQSCommands_total: "\<exists>cs. parseSQSCommands H doc = Inr cs"
proof -
  let ?lns = "split_lines doc"
  from scan_wf[OF wf_init, of H "?lns"] obtain st where
    s: "scan H 0 ?lns init_state = Inr st" and w: "wf_state (int (length ?lns)) st" by auto
  have "0 \<le> int (length ?lns) - 1" using split_lines_nonempty[of doc]
    by (cases "?lns") auto
  from push_finalized_ok[OF w this, of H] s show ?thesis
    by (auto simp: parseSQSCommands_def parseLines_def split: option.splits)
qed


section \<open>Blank lines and comments\<close>

text \<open>
  Claim C6. A line that is empty after trimming, or whose trimmed form starts with
  \<^verbatim>\<open>#\<close>, is skipped whatever the state of the scanner: the whole state is left as it
  was, so the brace count, the accumulated body lines and the flag of an open JSON body
  are untouched.
\<close>

theorem skipped_line_keeps_state:
  "skipped raw \<Longrightarrow> step H i raw st = Inr st"
  by (simp add: skipped_def step_def)

theorem skipped_line_keeps_state_witness:
  "skipped ''  # } not counted'' \<and>
   step (js_host None None) 2 ''  # } not counted''
     \<lparr>currentCommand = Some
        \<lparr>type = SEND, queueUrl = ''q'', profile = ''default'', region = ''us-east-1'',
         messageBody = None, messageAttributes = None, maxMessages = None,
         visibilityTimeout = None, waitTimeSeconds = None, range_cmd = None\<rparr>,
      commandBodyStartLine = 0, commandBodyLines = [''{''], inJsonBody = True,
      jsonStartLine = 1, bracesCount = 1, commands = []\<rparr> =
   Inr \<lparr>currentCommand = Some
        \<lparr>type = SEND, queueUrl = ''q'', profile = ''default'', region = ''us-east-1'',
         messageBody = None, messageAttributes = None, maxMessages = None,
         visibilityTimeout = None, waitTimeSeconds = None, range_cmd = None\<rparr>,
      commandBodyStartLine = 0, commandBodyLines = [''{''], inJsonBody = True,
      jsonStartLine = 1, bracesCount = 1, commands = []\<rparr>"
proof -
  have s: "skipped ''  # } not counted''"
    by (simp add: skipped_def trim_def is_ws_def startsWith_def)
  show ?thesis using s skipped_line_keeps_state [OF s] by simp
qed


section \<open>Fields of the emitted commands\<close>

lemma trim_last_not_ws: "trim s \<noteq> [] \<Longrightarrow> \<not> is_ws (last (trim s))"
proof -
  assume a: "trim s \<noteq> []"
  let ?t = "dropWhile is_ws (rev (dropWhile is_ws s))"
  from a have "?t \<noteq> []" by (simp add: trim_def)
  then have "\<not> is_ws (hd ?t)" by (rule hd_dropWhile)
  moreover have "last (trim s) = hd ?t" using \<open>?t \<noteq> []\<close> by (simp add: trim_def last_rev)
  ultimately show ?thesis by simp
qed

lemma trim_nonempty: "c \<in> set s \<Longrightarrow> \<not> is_ws c \<Longrightarrow> trim s \<noteq> []"
proof -
  assume c: "c \<in> set s" and n: "\<not> is_ws c"
  then have "dropWhile is_ws s \<noteq> []" by (auto simp: dropWhile_eq_Nil_conv)
  moreover have "c \<in> set (dropWhile is_ws s)" using c n
    by (metis (full_types) takeWhile_dropWhile_id Un_iff set_append set_takeWhileD)
  then have "c \<in> set (rev (dropWhile is_ws s))" by simp
  then have "dropWhile is_ws (rev (dropWhile is_ws s)) \<noteq> []" using n
    by (auto simp: dropWhile_eq_Nil_conv)
  then show ?thesis by (simp add: trim_def)
qed

lemma after_key_suffix: "after_key name s = Some t \<Longrightarrow> \<exists>p. s = p @ t"
proof -
  assume a: "after_key name s = Some t"
  then obtain r where r: "strip_prefix name s = Some r" and d: "dropWhile is_ws r = CHR '':'' # t"
    by (auto simp: after_key_def split: option.splits list.splits if_splits)
  from r have "s = name @ r"
    by (auto simp: strip_prefix_def startsWith_def split: if_splits) (metis append_take_drop_id)
  moreover have "r = takeWhile is_ws r @ CHR '':'' # t" using d
    by (metis takeWhile_dropWhile_id)
  ultimately have "s = (name @ takeWhile is_ws r @ [CHR '':'']) @ t" by simp
  then show ?thesis by blast
qed

lemma capture_rest_suffix: "capture_rest t = Some v \<Longrightarrow> v \<noteq> [] \<and> (\<exists>p. t = p @ v)"
proof -
  assume a: "capture_rest t = Some v"
  show ?thesis
  proof (cases "dropWhile is_ws t = []")
    case True
    with a have "t \<noteq> []" "v = [last t]" by (auto simp: capture_rest_def Let_def split: if_splits)
    then show ?thesis by (metis append_butlast_last_id not_Cons_self2)
  next
    case False
    with a have "v = dropWhile is_ws t" by (auto simp: capture_rest_def Let_def split: if_splits)
    then show ?thesis using False by (metis takeWhile_dropWhile_id)
  qed
qed

lemma capture_trim_nonempty:
  assumes "after_key name (trim raw) = Some t" "capture_rest t = Some v"
  shows "trim v \<noteq> []"
proof -
  from after_key_suffix[OF assms(1)] obtain p where p: "trim raw = p @ t" by blast
  from capture_rest_suffix[OF assms(2)] obtain q where v: "v \<noteq> []" and q: "t = q @ v" by blast
  from p q v have l: "last (trim raw) = last v" and ne: "trim raw \<noteq> []" by auto
  from trim_last_not_ws[OF ne] l have "\<not> is_ws (last v)" by simp
  moreover have "last v \<in> set v" using v by simp
  ultimately show ?thesis by (rule trim_nonempty[rotated])
qed

lemma profile_trim_nonempty: "profilePattern (trim raw) = Some v \<Longrightarrow> trim v \<noteq> []"
  by (auto simp: profilePattern_def Option.bind_eq_Some_conv dest: capture_trim_nonempty)

lemma region_trim_nonempty: "regionPattern (trim raw) = Some v \<Longrightarrow> trim v \<noteq> []"
  by (auto simp: regionPattern_def Option.bind_eq_Some_conv dest: capture_trim_nonempty)

lemma or_default_nonempty: "d \<noteq> [] \<Longrightarrow> or_default v d \<noteq> []"
  by (auto simp: or_default_def split: option.splits)

lemma try_parse_body_ok: "cmd_ok (try_parse_body H bl c) = cmd_ok c"
  by (auto simp: try_parse_body_def cmd_ok_def split: option.splits)

lemma push_finalized_cmds_ok:
  assumes "cmds_ok st" "push_finalized H e st = Inr (b, st1)"
  shows "cmds_ok st1 \<and> currentCommand st1 = currentCommand st"
  using assms
  by (auto simp: push_finalized_def finalizeCommand_def cmds_ok_def Let_def try_parse_body_ok
           split: option.splits sum.splits if_splits)
     (auto simp: cmd_ok_def)

lemma header_branch_cmds_ok:
  assumes "cmds_ok st" "header_branch H i k u st = Inr st1" "u \<noteq> []"
  shows "cmds_ok st1"
proof -
  from assms(2) obtain b st0 where p: "push_finalized H (i - 1) st = Inr (b, st0)"
    by (auto simp: header_branch_def split: sum.splits)
  from push_finalized_cmds_ok[OF assms(1) p] have "\<forall>c \<in> set (commands st0). cmd_ok c"
    by (simp add: cmds_ok_def)
  with assms(2,3) p show ?thesis
    by (auto simp: header_branch_def cmds_ok_def cmd_ok_def or_default_nonempty split: if_splits)
qed

lemma receive_param_ok:
  "receive_param ln c = Some c1 \<Longrightarrow> type c = RECEIVE \<Longrightarrow> cmd_ok c \<Longrightarrow> cmd_ok c1"
  by (auto simp: receive_param_def cmd_ok_def split: option.splits)

lemma param_branch_cmds_ok:
  assumes "cmds_ok st" "currentCommand st = Some c" "param_branch H i (trim raw) c st = Inr st1"
  shows "cmds_ok st1"
proof -
  from assms(1,2) have c: "cmd_ok c" and cs: "\<forall>c \<in> set (commands st). cmd_ok c"
    by (auto simp: cmds_ok_def)
  show ?thesis
  proof (cases "profilePattern (trim raw)")
    case (Some v)
    with assms(3) have "st1 = st\<lparr>currentCommand := Some (c\<lparr>profile := trim v\<rparr>)\<rparr>"
      by (simp add: param_branch_def)
    then show ?thesis using c cs profile_trim_nonempty[OF Some]
      by (simp add: cmds_ok_def cmd_ok_def)
  next
    case np: None
    show ?thesis
    proof (cases "regionPattern (trim raw)")
      case (Some v)
      with assms(3) np have "st1 = st\<lparr>currentCommand := Some (c\<lparr>region := trim v\<rparr>)\<rparr>"
        by (simp add: param_branch_def)
      then show ?thesis using c cs region_trim_nonempty[OF Some]
        by (simp add: cmds_ok_def cmd_ok_def)
    next
      case nr: None
      show ?thesis
      proof (cases "if type c = RECEIVE then receive_param (trim raw) c else None")
        case (Some c1)
        then have "cmd_ok c1" using c by (auto split: if_splits intro: receive_param_ok)
        moreover from assms(3) np nr Some have "st1 = st\<lparr>currentCommand := Some c1\<rparr>"
          by (simp add: param_branch_def)
        ultimately show ?thesis using cs by (simp add: cmds_ok_def)
      next
        case None
        with assms(3) np nr have b: "body_or_delimiter H i (trim raw) c st = Inr st1"
          by (simp add: param_branch_def)
        show ?thesis
        proof (cases "type c = SEND \<and> startsWith ''{'' (trim raw)")
          case True
          with b show ?thesis using assms(1,2) by (auto simp: body_or_delimiter_def cmds_ok_def)
        next
          case False
          show ?thesis
          proof (cases "trim raw = ''###''")
            case d: True
            with b False obtain bb st0 where p: "push_finalized H i st = Inr (bb, st0)"
              by (auto simp: body_or_delimiter_def split: sum.splits)
            from push_finalized_cmds_ok[OF assms(1) p] b False d p show ?thesis
              by (auto simp: body_or_delimiter_def cmds_ok_def split: if_splits)
          next
            case nd: False
            with b False show ?thesis using assms(1) by (auto simp: body_or_delimiter_def)
          qed
        qed
      qed
    qed
  qed
qed

lemma json_branch_cmds_ok: "cmds_ok st \<Longrightarrow> cmds_ok (json_branch H ln st)"
  by (auto simp: json_branch_def cmds_ok_def Let_def try_parse_body_ok split: option.splits)

lemma step_cmds_ok:
  assumes "cmds_ok st" "step H i raw st = Inr st1"
  shows "cmds_ok st1"
proof (cases "skipped raw")
  case True
  with assms show ?thesis by (simp add: skipped_def step_def)
next
  case ns: False
  show ?thesis
  proof (cases "commandBlockPattern (trim raw)")
    case (Some ku)
    obtain k u where ku: "ku = (k, u)" by (cases ku)
    with Some have "u \<noteq> []" by (auto dest: pattern_url_nonempty)
    then show ?thesis using Some ku assms by (auto simp: step_header intro: header_branch_cmds_ok)
  next
    case None
    then have nh: "\<not> is_header raw" by (simp add: is_header_def)
    show ?thesis using assms ns nh
      by (auto simp: step_other json_branch_cmds_ok split: option.splits if_splits
               intro: param_branch_cmds_ok)
  qed
qed

lemma scan_cmds_ok:
  "cmds_ok st \<Longrightarrow> scan H i lns st = Inr st1 \<Longrightarrow> cmds_ok st1"
proof (induction lns arbitrary: i st)
  case Nil
  then show ?case by simp
next
  case (Cons raw rest)
  then show ?case by (auto split: sum.splits dest: step_cmds_ok)
qed

lemma parseLines_cmd_ok:
  assumes "parseLines H lns = Inr cs" "c \<in> set cs"
  shows "cmd_ok c"
proof -
  from assms(1) obtain st b st1 where s: "scan H 0 lns init_state = Inr st"
    and p: "push_finalized H (int (length lns) - 1) st = Inr (b, st1)" and cs: "cs = commands st1"
    by (auto simp: parseLines_def split: sum.splits)
  have "cmds_ok (init_state :: 'a pstate)" by (simp add: cmds_ok_def init_state_def)
  from scan_cmds_ok[OF this s] have "cmds_ok st" .
  from push_finalized_cmds_ok[OF this p] cs assms(2) show ?thesis by (simp add: cmds_ok_def)
qed

text \<open>
  Claim C8. Every command of the output, for every document and every host, has a
  type (by its type), a queue URL that is not empty, and a profile and a region that
  are not empty: the configured default or its fallback, or the trimmed value of a
  parameter line, which ends with the last character of a trimmed line.
\<close>

theorem emitted_fields_present:
  "parseSQSCommands H doc = Inr cs \<Longrightarrow> c \<in> set cs \<Longrightarrow>
   queueUrl c \<noteq> [] \<and> profile c \<noteq> [] \<and> region c \<noteq> []"
  by (auto simp: parseSQSCommands_def dest!: parseLines_cmd_ok simp: cmd_ok_def)

theorem emitted_fields_present_witness:
  \<open>parseSQSCommands (js_host (Some []) (Some [])) ''SEND q\<newline>profile:  p1 \<newline>{"x":1}'' =
     Inr [(fresh_command SEND ''q'')
            \<lparr>profile := ''p1'', messageBody := Some (JObject [([120], JNumber 1 0)]),
             range_cmd := Some (lines_range 0 2)\<rparr>] \<and>
   queueUrl ((fresh_command SEND ''q'')
            \<lparr>profile := ''p1'', messageBody := Some (JObject [([120], JNumber 1 0)]),
             range_cmd := Some (lines_range 0 2)\<rparr>) = ''q'' \<and>
   profile ((fresh_command SEND ''q'')
            \<lparr>profile := ''p1'', messageBody := Some (JObject [([120], JNumber 1 0)]),
             range_cmd := Some (lines_range 0 2)\<rparr>) = ''p1'' \<and>
   region ((fresh_command SEND ''q'')
            \<lparr>profile := ''p1'', messageBody := Some (JObject [([120], JNumber 1 0)]),
             range_cmd := Some (lines_range 0 2)\<rparr>) = ''us-east-1''\<close>
proof -
  have e: \<open>parseSQSCommands (js_host (Some []) (Some [])) ''SEND q\<newline>profile:  p1 \<newline>{"x":1}'' =
     Inr [(fresh_command SEND ''q'')
            \<lparr>profile := ''p1'', messageBody := Some (JObject [([120], JNumber 1 0)]),
             range_cmd := Some (lines_range 0 2)\<rparr>]\<close>
    by code_simp
  from emitted_fields_present [OF e] e show ?thesis by (simp add: fresh_command_def)
qed

text \<open>
  Claim C9. The fields \<open>maxMessages\<close>, \<open>visibilityTimeout\<close> and \<open>waitTimeSeconds\<close>
  are set on RECEIVE commands only: on every emitted SEND or PURGE command the three
  fields are absent, whatever lines its block holds.
\<close>

theorem numeric_fields_receive_only:
  "parseSQSCommands H doc = Inr cs \<Longrightarrow> c \<in> set cs \<Longrightarrow> type c \<noteq> RECEIVE \<Longrightarrow>
   maxMessages c = None \<and> visibilityTimeout c = None \<and> waitTimeSeconds c = None"
  by (auto simp: parseSQSCommands_def dest!: parseLines_cmd_ok simp: cmd_ok_def)

theorem numeric_fields_receive_only_witness:
  \<open>parseSQSCommands (js_host None None)
      ''PURGE q\<newline>max-messages: 5\<newline>visibility-timeout: 7\<newline>wait-time: 2'' =
     Inr [(fresh_command PURGE ''q'')\<lparr>range_cmd := Some (lines_range 0 3)\<rparr>] \<and>
   type ((fresh_command PURGE ''q'')\<lparr>range_cmd := Some (lines_range 0 3)\<rparr>) \<noteq> RECEIVE \<and>
   maxMessages ((fresh_command PURGE ''q'')\<lparr>range_cmd := Some (lines_range 0 3)\<rparr>) = None \<and>
   visibilityTimeout ((fresh_command PURGE ''q'')\<lparr>range_cmd := Some (lines_range 0 3)\<rparr>) = None \<and>
   waitTimeSeconds ((fresh_command PURGE ''q'')\<lparr>range_cmd := Some (lines_range 0 3)\<rparr>) = None\<close>
proof -
  have e: \<open>parseSQSCommands (js_host None None)
      ''PURGE q\<newline>max-messages: 5\<newline>visibility-timeout: 7\<newline>wait-time: 2'' =
     Inr [(fresh_command PURGE ''q'')\<lparr>range_cmd := Some (lines_range 0 3)\<rparr>]\<close>
    by code_simp
  have t: "type ((fresh_command PURGE ''q'')\<lparr>range_cmd := Some (lines_range 0 3)\<rparr>) \<noteq> RECEIVE"
    by (simp add: fresh_command_def)
  from numeric_fields_receive_only [OF e _ t] e t show ?thesis by simp
qed

section \<open>A document is parsed block by block\<close>

lemma sim_wf: "sim off pfx s t \<Longrightarrow> wf_state i t \<Longrightarrow> 0 \<le> off \<Longrightarrow> wf_state (i + off) s"
  by (auto simp: sim_def wf_state_def split: option.splits)

lemma shift_try_parse_body:
  "shift_cmd off (try_parse_body H bl c) = try_parse_body H bl (shift_cmd off c)"
  by (simp add: shift_cmd_def try_parse_body_def split: option.splits)

lemma shift_Range_new:
  "shift_range off (Range_new \<lparr>line = a, character = x\<rparr> \<lparr>line = b, character = y\<rparr>) =
   Range_new \<lparr>line = a + off, character = x\<rparr> \<lparr>line = b + off, character = y\<rparr>"
  by (simp add: shift_range_def Range_new_def isBefore_def)

lemma push_finalized_sim:
  assumes "sim off pfx s t" "wf_state i t" "0 \<le> off" "currentCommand t \<noteq> None \<longrightarrow> 0 \<le> e"
  shows "\<exists>b t1 s1. push_finalized H e t = Inr (b, t1) \<and>
                    push_finalized H (e + off) s = Inr (b, s1) \<and> sim off pfx s1 t1 \<and>
                    wf_state i t1"
proof (cases "currentCommand t")
  case None
  with assms show ?thesis by (auto simp: push_finalized_def sim_def)
next
  case (Some c)
  with assms have e: "0 \<le> e" "0 \<le> e + off" by auto
  from sim_wf[OF assms(1,2,3)] have ws: "wf_state (i + off) s" .
  show ?thesis
    using Some assms(1,2)
    by (simp add: push_finalized_ok[OF assms(2) e(1)] push_finalized_ok[OF ws e(2)])
       (auto simp: sim_def Let_def shift_cmd_def shift_Range_new try_parse_body_def wf_state_def
             split: option.splits)
qed

lemma header_branch_sim:
  assumes "sim off pfx s t" "wf_state i t" "0 \<le> off" "0 \<le> i"
    "header_branch H i k u t = Inr t1"
  shows "\<exists>s1. header_branch H (i + off) k u s = Inr s1 \<and> sim off pfx s1 t1"
proof -
  have "currentCommand t \<noteq> None \<longrightarrow> 0 \<le> i - 1" using assms(2)
    by (auto simp: wf_state_def split: option.splits)
  from push_finalized_sim[OF assms(1,2,3) this, of H] obtain b t0 s0 where
    p: "push_finalized H (i - 1) t = Inr (b, t0)"
       "push_finalized H (i - 1 + off) s = Inr (b, s0)" "sim off pfx s0 t0" by blast
  from p(2) have q: "push_finalized H (i + off - 1) s = Inr (b, s0)"
    by (simp add: algebra_simps)
  from p(1) assms(5) have t1: "t1 = (if b then t0\<lparr>commandBodyLines := []\<rparr> else t0)
               \<lparr>currentCommand := Some
                  \<lparr>type = k, queueUrl = u,
                   profile = or_default (defaultProfile H) ''default'',
                   region = or_default (defaultRegion H) ''us-east-1'',
                   messageBody = None, messageAttributes = None, maxMessages = None,
                   visibilityTimeout = None, waitTimeSeconds = None, range_cmd = None\<rparr>,
                commandBodyStartLine := i,
                inJsonBody := False,
                jsonStartLine := - 1\<rparr>"
    by (simp add: header_branch_def)
  show ?thesis using p(3) by (simp add: header_branch_def q t1 sim_def)
qed

lemma param_branch_sim:
  assumes "sim off pfx s t" "\<not> startsWith ''#'' ln" "param_branch H i ln c t = Inr t1"
    "currentCommand t = Some c"
  shows "\<exists>s1. param_branch H (i + off) ln c s = Inr s1 \<and> sim off pfx s1 t1"
proof -
  have d: "ln \<noteq> ''###''" using assms(2) by (auto simp: startsWith_def)
  show ?thesis using assms(1,3,4) d
    by (auto simp: param_branch_def body_or_delimiter_def sim_def split: option.splits if_splits)
qed

lemma json_branch_sim:
  assumes "sim off pfx s t" "inJsonBody t"
  shows "sim off pfx (json_branch H ln s) (json_branch H ln t)"
  using assms
  by (auto simp: json_branch_def sim_def Let_def split: option.splits)

lemma step_sim:
  assumes "sim off pfx s t" "wf_state i t" "0 \<le> off" "0 \<le> i" "step H i raw t = Inr t1"
  shows "\<exists>s1. step H (i + off) raw s = Inr s1 \<and> sim off pfx s1 t1"
proof (cases "skipped raw")
  case True
  with assms show ?thesis by (simp add: skipped_def step_def)
next
  case ns: False
  show ?thesis
  proof (cases "commandBlockPattern (trim raw)")
    case (Some ku)
    obtain k u where ku: "ku = (k, u)" by (cases ku)
    with Some assms show ?thesis by (simp add: step_header header_branch_sim)
  next
    case None
    then have nh: "\<not> is_header raw" by (simp add: is_header_def)
    have nc: "\<not> startsWith ''#'' (trim raw)" using ns by (simp add: skipped_def)
    have eq: "currentCommand s = currentCommand t" "inJsonBody s = inJsonBody t"
      using assms(1) by (auto simp: sim_def)
    show ?thesis
    proof (cases "currentCommand t")
      case cn: None
      then have "\<not> inJsonBody t" using assms(2) by (simp add: wf_state_def)
      with cn eq assms(1,5) ns nh show ?thesis by (simp add: step_other)
    next
      case (Some c)
      show ?thesis
      proof (cases "inJsonBody t")
        case True
        with Some eq assms(5) ns nh json_branch_sim[where H=H and ln="trim raw", OF assms(1) True]
        show ?thesis by (auto simp: step_other)
      next
        case False
        with Some eq assms(5) ns nh have "param_branch H i (trim raw) c t = Inr t1"
          by (simp add: step_other)
        from param_branch_sim[OF assms(1) nc this Some] Some False eq ns nh
        show ?thesis by (simp add: step_other)
      qed
    qed
  qed
qed

lemma scan_sim:
  "sim off pfx s t \<Longrightarrow> wf_state i t \<Longrightarrow> 0 \<le> off \<Longrightarrow> 0 \<le> i \<Longrightarrow>
   \<exists>s1 t1. scan H i lns t = Inr t1 \<and> scan H (i + off) lns s = Inr s1 \<and>
            sim off pfx s1 t1 \<and> wf_state (i + int (length lns)) t1"
proof (induction lns arbitrary: i s t)
  case Nil
  then show ?case by simp
next
  case (Cons raw rest)
  from step_wf[OF Cons.prems(2,4), of H raw] obtain t0 where
    t0: "step H i raw t = Inr t0" "wf_state (i + 1) t0" by blast
  from step_sim[OF Cons.prems t0(1)] obtain s0 where
    s0: "step H (i + off) raw s = Inr s0" "sim off pfx s0 t0" by blast
  have "0 \<le> i + 1" using Cons.prems(4) by simp
  from Cons.IH[OF s0(2) t0(2) Cons.prems(3) this] obtain s1 t1 where
    "scan H (i + 1) rest t0 = Inr t1" "scan H (i + 1 + off) rest s0 = Inr s1"
    "sim off pfx s1 t1" "wf_state (i + 1 + int (length rest)) t1" by blast
  with t0 s0 show ?case by (simp add: ac_simps)
qed

lemma scan_append:
  "scan H i (xs @ ys) st =
     (case scan H i xs st of
        Inl e \<Rightarrow> Inl e
      | Inr st1 \<Rightarrow> scan H (i + int (length xs)) ys st1)"
  by (induction xs arbitrary: i st) (auto simp: ac_simps split: sum.splits)

lemma push_finalized_total:
  assumes "wf_state i st" "currentCommand st \<noteq> None \<longrightarrow> 0 \<le> e"
  shows "\<exists>b st1. push_finalized H e st = Inr (b, st1) \<and>
                 st1\<lparr>commands := commands st\<rparr> = st \<and>
                 (b \<longleftrightarrow> currentCommand st \<noteq> None)"
proof (cases "currentCommand st")
  case None
  then show ?thesis by (auto simp: push_finalized_def)
next
  case (Some c)
  with assms(2) have "0 \<le> e" by simp
  from push_finalized_ok[OF assms(1) this, of H] Some show ?thesis by auto
qed

lemma scan_append_header:
  assumes "is_header h"
  shows "\<exists>a s t. parseLines H l1 = Inr a \<and> scan H 0 (h # l2) init_state = Inr t \<and>
           scan H 0 (l1 @ h # l2) init_state = Inr s \<and> sim (int (length l1)) a s t \<and>
           wf_state (1 + int (length l2)) t"
proof -
  let ?n = "int (length l1)"
  let ?new = "\<lambda>k u. \<lparr>type = k, queueUrl = u,
                   profile = or_default (defaultProfile H) ''default'',
                   region = or_default (defaultRegion H) ''us-east-1'',
                   messageBody = None, messageAttributes = None, maxMessages = None,
                   visibilityTimeout = None, waitTimeSeconds = None, range_cmd = None\<rparr>"
  obtain k u where ku: "commandBlockPattern (trim h) = Some (k, u)"
    using assms by (auto simp: is_header_def)
  then have u: "u \<noteq> []" by (rule pattern_url_nonempty)
  from scan_wf[OF wf_init, of H l1] obtain s1 where
    s1: "scan H 0 l1 init_state = Inr s1" "wf_state ?n s1" by auto
  have e1: "currentCommand s1 \<noteq> None \<longrightarrow> 0 \<le> ?n - 1" using s1(2)
    by (auto simp: wf_state_def split: option.splits)
  from push_finalized_total[OF s1(2) e1, of H] obtain b1 s1' where
    p1: "push_finalized H (?n - 1) s1 = Inr (b1, s1')" "s1'\<lparr>commands := commands s1\<rparr> = s1"
        "b1 \<longleftrightarrow> currentCommand s1 \<noteq> None" by blast
  have a: "parseLines H l1 = Inr (commands s1')" using s1(1) p1(1) by (simp add: parseLines_def)
  define s2 where "s2 = (if b1 then s1'\<lparr>commandBodyLines := []\<rparr> else s1')
               \<lparr>currentCommand := Some (?new k u), commandBodyStartLine := ?n,
                inJsonBody := False, jsonStartLine := - 1\<rparr>"
  define t2 :: "'a pstate" where "t2 = init_state
               \<lparr>currentCommand := Some (?new k u), commandBodyStartLine := 0,
                inJsonBody := False, jsonStartLine := - 1\<rparr>"
  have hs: "step H ?n h s1 = Inr s2" using ku p1(1) by (simp add: step_header header_branch_def s2_def)
  have ht: "step H 0 h init_state = Inr t2" using ku
    by (simp add: step_header header_branch_def t2_def push_finalized_def init_state_def)
  have bl: "commandBodyLines s2 = []"
  proof (cases b1)
    case True
    then show ?thesis by (simp add: s2_def)
  next
    case False
    with p1(3) have "currentCommand s1 = None" by simp
    with s1(2) have "commandBodyLines s1 = []" by (simp add: wf_state_def)
    with p1(2) have "commandBodyLines s1' = []" by (metis pstate.select_convs(3) pstate.surjective pstate.update_convs(7))
    with False show ?thesis by (simp add: s2_def)
  qed
  have sm: "sim ?n (commands s1') s2 t2"
    using bl by (simp add: sim_def) (simp add: s2_def t2_def init_state_def)
  have wt: "wf_state 1 t2" using u by (simp add: wf_state_def t2_def init_state_def)
  from scan_sim[OF sm wt, of H l2] obtain s3 t3 where
    sc: "scan H 1 l2 t2 = Inr t3" "scan H (1 + ?n) l2 s2 = Inr s3"
        "sim ?n (commands s1') s3 t3" "wf_state (1 + int (length l2)) t3" by auto
  have "scan H 0 (l1 @ h # l2) init_state = Inr s3" using s1(1) hs sc(2)
    by (simp add: scan_append ac_simps)
  moreover have "scan H 0 (h # l2) init_state = Inr t3" using ht sc(1) by simp
  ultimately show ?thesis using a sc(3,4) by blast
qed

lemma parseLines_append_header:
  assumes "is_header h"
  shows "\<exists>a b. parseLines H l1 = Inr a \<and> parseLines H (h # l2) = Inr b \<and>
               parseLines H (l1 @ h # l2) = Inr (a @ map (shift_cmd (int (length l1))) b)"
proof -
  from scan_append_header[OF assms, of H l1 l2] obtain a s3 t3 where
    a: "parseLines H l1 = Inr a" and
    sc: "scan H 0 (h # l2) init_state = Inr t3" "scan H 0 (l1 @ h # l2) init_state = Inr s3"
        "sim (int (length l1)) a s3 t3" "wf_state (1 + int (length l2)) t3" by blast
  have "currentCommand t3 \<noteq> None \<longrightarrow> 0 \<le> int (length l2)" by simp
  from push_finalized_sim[OF sc(3,4) _ this, of H] obtain b3 t4 s4 where
    p3: "push_finalized H (int (length l2)) t3 = Inr (b3, t4)"
        "push_finalized H (int (length l2) + int (length l1)) s3 = Inr (b3, s4)"
        "sim (int (length l1)) a s4 t4" by auto
  have b: "parseLines H (h # l2) = Inr (commands t4)" using sc(1) p3(1)
    by (simp add: parseLines_def)
  have "int (length (l1 @ h # l2)) - 1 = int (length l2) + int (length l1)" by simp
  then have "parseLines H (l1 @ h # l2) = Inr (commands s4)" using sc(2) p3(2)
    by (simp add: parseLines_def del: length_append)
  with a b p3(3) show ?thesis by (simp add: sim_def)
qed

lemma param_branch_live:
  assumes "\<not> startsWith ''#'' ln"
  shows "body_or_delimiter H i ln c st =
     Inr (if type c = SEND \<and> startsWith ''{'' ln
          then st\<lparr>inJsonBody := True, jsonStartLine := i, bracesCount := 1,
                  commandBodyLines := commandBodyLines st @ [ln]\<rparr>
          else st)"
proof -
  have "ln \<noteq> ''###''" using assms by (auto simp: startsWith_def)
  then show ?thesis by (simp add: body_or_delimiter_def)
qed

lemma step_block_basic:
  assumes "\<not> is_header raw" "currentCommand st = Some c"
  shows "\<exists>st1 c1. step H i raw st = Inr st1 \<and> currentCommand st1 = Some c1 \<and>
           commands st1 = commands st \<and> commandBodyStartLine st1 = commandBodyStartLine st \<and>
           type c1 = type c \<and> queueUrl c1 = queueUrl c \<and>
           (profilePattern (trim raw) = None \<longrightarrow> profile c1 = profile c) \<and>
           (regionPattern (trim raw) = None \<longrightarrow> region c1 = region c)"
proof (cases "skipped raw")
  case True
  with assms show ?thesis by (simp add: skipped_def step_def)
next
  case False
  then have nc: "\<not> startsWith ''#'' (trim raw)" by (simp add: skipped_def)
  show ?thesis
  proof (cases "inJsonBody st")
    case True
    with assms False show ?thesis
      by (auto simp: step_other json_branch_def Let_def try_parse_body_def split: option.splits)
  next
    case nj: False
    with assms False show ?thesis
      by (auto simp: step_other param_branch_def param_branch_live[OF nc] receive_param_def
               split: option.splits)
  qed
qed

lemma scan_block_basic:
  "\<forall>l \<in> set blk. \<not> is_header l \<Longrightarrow> currentCommand st = Some c \<Longrightarrow>
   \<exists>st1 c1. scan H i blk st = Inr st1 \<and> currentCommand st1 = Some c1 \<and>
           commands st1 = commands st \<and> commandBodyStartLine st1 = commandBodyStartLine st \<and>
           type c1 = type c \<and> queueUrl c1 = queueUrl c \<and>
           ((\<forall>l \<in> set blk. profilePattern (trim l) = None) \<longrightarrow> profile c1 = profile c) \<and>
           ((\<forall>l \<in> set blk. regionPattern (trim l) = None) \<longrightarrow> region c1 = region c)"
proof (induction blk arbitrary: i st c)
  case Nil
  then show ?case by simp
next
  case (Cons raw rest)
  from Cons.prems have nh: "\<not> is_header raw" and nr: "\<forall>l \<in> set rest. \<not> is_header l" by auto
  from step_block_basic[OF nh Cons.prems(2), of H i] obtain st0 c0 where
    s0: "step H i raw st = Inr st0" "currentCommand st0 = Some c0"
        "commands st0 = commands st" "commandBodyStartLine st0 = commandBodyStartLine st"
        "type c0 = type c" "queueUrl c0 = queueUrl c"
        "profilePattern (trim raw) = None \<longrightarrow> profile c0 = profile c"
        "regionPattern (trim raw) = None \<longrightarrow> region c0 = region c" by force
  from Cons.IH[OF nr s0(2), of "i + 1"] obtain st1 c1 where
    s1: "scan H (i + 1) rest st0 = Inr st1" "currentCommand st1 = Some c1"
        "commands st1 = commands st0" "commandBodyStartLine st1 = commandBodyStartLine st0"
        "type c1 = type c0" "queueUrl c1 = queueUrl c0"
        "(\<forall>l \<in> set rest. profilePattern (trim l) = None) \<longrightarrow> profile c1 = profile c0"
        "(\<forall>l \<in> set rest. regionPattern (trim l) = None) \<longrightarrow> region c1 = region c0" by force
  from s0 s1 show ?case by simp
qed

text \<open>The state after a header line that is the first line of a document.\<close>

lemma step_first_header:
  assumes "commandBlockPattern (trim h) = Some (k, u)"
  shows "step H 0 h init_state =
     Inr (init_state\<lparr>currentCommand := Some
            \<lparr>type = k, queueUrl = u, profile = or_default (defaultProfile H) ''default'',
             region = or_default (defaultRegion H) ''us-east-1'',
             messageBody = None, messageAttributes = None, maxMessages = None,
             visibilityTimeout = None, waitTimeSeconds = None, range_cmd = None\<rparr>,
          commandBodyStartLine := 0\<rparr>)"
  using assms by (simp add: step_header header_branch_def push_finalized_def init_state_def)

lemma Range_new_lines: "s \<le> e \<Longrightarrow>
  Range_new \<lparr>line = s, character = 0\<rparr> \<lparr>line = e, character = 1000\<rparr> = lines_range s e"
  by (auto simp: Range_new_def isBefore_def lines_range_def)

lemma single_block:
  assumes "commandBlockPattern (trim h) = Some (k, u)" "\<forall>l \<in> set blk. \<not> is_header l"
  shows "\<exists>st c0. scan H 0 (h # blk) init_state = Inr st \<and> currentCommand st = Some c0 \<and>
           type c0 = k \<and> queueUrl c0 = u \<and>
           ((\<forall>l \<in> set blk. profilePattern (trim l) = None) \<longrightarrow>
              profile c0 = or_default (defaultProfile H) ''default'') \<and>
           ((\<forall>l \<in> set blk. regionPattern (trim l) = None) \<longrightarrow>
              region c0 = or_default (defaultRegion H) ''us-east-1'') \<and>
           parseLines H (h # blk) =
             Inr [if type c0 = SEND \<and> body_missing H (messageBody c0) \<and> commandBodyLines st \<noteq> []
                  then try_parse_body H (commandBodyLines st)
                         (c0\<lparr>range_cmd := Some (lines_range 0 (int (length blk)))\<rparr>)
                  else c0\<lparr>range_cmd := Some (lines_range 0 (int (length blk)))\<rparr>]"
proof -
  let ?t = "init_state\<lparr>currentCommand := Some
            \<lparr>type = k, queueUrl = u, profile = or_default (defaultProfile H) ''default'',
             region = or_default (defaultRegion H) ''us-east-1'',
             messageBody = None, messageAttributes = None, maxMessages = None,
             visibilityTimeout = None, waitTimeSeconds = None, range_cmd = None\<rparr>,
          commandBodyStartLine := 0\<rparr> :: 'a pstate"
  have c: "currentCommand ?t = Some \<lparr>type = k, queueUrl = u, profile = or_default (defaultProfile H) ''default'',
             region = or_default (defaultRegion H) ''us-east-1'',
             messageBody = None, messageAttributes = None, maxMessages = None,
             visibilityTimeout = None, waitTimeSeconds = None, range_cmd = None\<rparr>" by simp
  from scan_block_basic[OF assms(2) c, of H 1] obtain st c0 where
    s: "scan H 1 blk ?t = Inr st" "currentCommand st = Some c0" "commands st = commands ?t"
       "commandBodyStartLine st = commandBodyStartLine ?t" "type c0 = k" "queueUrl c0 = u"
       "(\<forall>l \<in> set blk. profilePattern (trim l) = None) \<longrightarrow>
              profile c0 = or_default (defaultProfile H) ''default''"
       "(\<forall>l \<in> set blk. regionPattern (trim l) = None) \<longrightarrow>
              region c0 = or_default (defaultRegion H) ''us-east-1''"
    by force
  have sc: "scan H 0 (h # blk) init_state = Inr st" using s(1) step_first_header[OF assms(1), of H]
    by simp
  from scan_wf[OF wf_init, of H "h # blk"] sc have w: "wf_state (int (length (h # blk))) st" by simp
  have "0 \<le> int (length (h # blk)) - 1" by simp
  from push_finalized_ok[OF w this, of H] s(2,3,4) sc
  have "parseLines H (h # blk) =
     Inr [let c1 = c0\<lparr>range_cmd := Some (Range_new \<lparr>line = 0, character = 0\<rparr>
                                                      \<lparr>line = int (length blk), character = 1000\<rparr>)\<rparr>
             in if type c0 = SEND \<and> body_missing H (messageBody c0) \<and> commandBodyLines st \<noteq> []
                then try_parse_body H (commandBodyLines st) c1 else c1]"
    by (simp add: parseLines_def init_state_def)
  then show ?thesis using sc s(2,5,6,7,8) by (simp add: Range_new_lines Let_def)
qed

lemma shift_cmd_shift_cmd: "shift_cmd a (shift_cmd b c) = shift_cmd (b + a) c"
  by (cases "range_cmd c") (simp_all add: shift_cmd_def shift_range_def)

lemma parseLines_Nil: "parseLines H [] = Inr []"
  by (simp add: parseLines_def push_finalized_def init_state_def)

lemma block_in_context:
  assumes "is_header h" "post = [] \<or> is_header (hd post)"
  shows "\<exists>cs1 cs2 b. parseLines H pre = Inr cs1 \<and> parseLines H post = Inr cs2 \<and>
           parseLines H (h # blk) = Inr b \<and>
           parseLines H (pre @ h # blk @ post) =
             Inr (cs1 @ map (shift_cmd (int (length pre))) b @
                  map (shift_cmd (int (length pre) + 1 + int (length blk))) cs2)"
proof (cases post)
  case Nil
  with parseLines_append_header[OF assms(1), of H pre blk] show ?thesis
    by (auto simp: parseLines_Nil)
next
  case (Cons h2 rest)
  with assms(2) have h2: "is_header h2" by simp
  from parseLines_append_header[OF assms(1), of H pre "blk @ post"] obtain a b where
    1: "parseLines H pre = Inr a" "parseLines H (h # blk @ post) = Inr b"
       "parseLines H (pre @ h # blk @ post) = Inr (a @ map (shift_cmd (int (length pre))) b)"
    by blast
  from parseLines_append_header[OF h2, of H "h # blk" rest] Cons obtain a2 b2 where
    2: "parseLines H (h # blk) = Inr a2" "parseLines H post = Inr b2"
       "parseLines H (h # blk @ post) = Inr (a2 @ map (shift_cmd (int (length (h # blk)))) b2)"
    by auto
  from 1(2) 2(3) have "b = a2 @ map (shift_cmd (int (length (h # blk)))) b2" by simp
  with 1(1,3) 2(1,2) show ?thesis by (simp add: shift_cmd_shift_cmd o_def ac_simps)
qed

lemma sealed_eq:
  "(if type c = SEND \<and> body_missing H (messageBody c) \<and> bl \<noteq> []
    then try_parse_body H bl (c\<lparr>range_cmd := Some R\<rparr>)
    else c\<lparr>range_cmd := Some R\<rparr>) =
   c\<lparr>range_cmd := Some R, messageBody := sealed_body H c bl\<rparr>"
  by (simp add: sealed_body_def try_parse_body_def split: option.splits)

lemma shift_lines_range: "shift_range n (lines_range a b) = lines_range (a + n) (b + n)"
  by (simp add: shift_range_def lines_range_def)

lemma shift_sealed:
  "shift_cmd n (c\<lparr>range_cmd := Some (lines_range a b), messageBody := m\<rparr>) =
   c\<lparr>range_cmd := Some (lines_range (a + n) (b + n)), messageBody := m\<rparr>"
  by (simp add: shift_cmd_def shift_lines_range)

lemma block_result:
  assumes "is_header h" "\<forall>l \<in> set blk. \<not> is_header l" "post = [] \<or> is_header (hd post)"
  shows "\<exists>cs1 cs2 s t c0.
           parseLines H pre = Inr cs1 \<and> parseLines H post = Inr cs2 \<and>
           scan H 0 (pre @ h # blk) init_state = Inr s \<and>
           scan H 0 (h # blk) init_state = Inr t \<and>
           sim (int (length pre)) cs1 s t \<and> currentCommand t = Some c0 \<and>
           parseLines H (pre @ h # blk @ post) =
             Inr (cs1 @
                  c0\<lparr>range_cmd := Some (lines_range (int (length pre))
                                           (int (length pre) + int (length blk))),
                     messageBody := sealed_body H c0 (commandBodyLines t)\<rparr> #
                  map (shift_cmd (int (length pre) + 1 + int (length blk))) cs2)"
proof -
  obtain k u where ku: "commandBlockPattern (trim h) = Some (k, u)"
    using assms(1) by (auto simp: is_header_def)
  from single_block[OF ku assms(2), of H] obtain t c0 where
    t: "scan H 0 (h # blk) init_state = Inr t" "currentCommand t = Some c0"
       "parseLines H (h # blk) =
          Inr [c0\<lparr>range_cmd := Some (lines_range 0 (int (length blk))),
                  messageBody := sealed_body H c0 (commandBodyLines t)\<rparr>]"
    unfolding sealed_eq by blast
  from scan_append_header[OF assms(1), of H pre blk] t(1) obtain a s where
    s: "parseLines H pre = Inr a" "scan H 0 (pre @ h # blk) init_state = Inr s"
       "sim (int (length pre)) a s t" by auto
  from block_in_context[OF assms(1,3), of H pre blk] s(1) t(3) obtain cs2 where
    "parseLines H post = Inr cs2"
    "parseLines H (pre @ h # blk @ post) =
       Inr (a @ map (shift_cmd (int (length pre)))
                  [c0\<lparr>range_cmd := Some (lines_range 0 (int (length blk))),
                      messageBody := sealed_body H c0 (commandBodyLines t)\<rparr>] @
            map (shift_cmd (int (length pre) + 1 + int (length blk))) cs2)" by auto
  with s t(1,2) show ?thesis by (simp add: shift_sealed add.commute del: scan.simps)
qed

lemma sim_same:
  "sim n a s t \<Longrightarrow> currentCommand s = currentCommand t \<and>
     commandBodyLines s = commandBodyLines t \<and> inJsonBody s = inJsonBody t \<and>
     (inJsonBody t \<longrightarrow> bracesCount s = bracesCount t)"
  by (simp add: sim_def)

lemma sealed_profile [simp]:
  "profile (c\<lparr>range_cmd := r, messageBody := m\<rparr>) = profile c"
  "region (c\<lparr>range_cmd := r, messageBody := m\<rparr>) = region c"
  "type (c\<lparr>range_cmd := r, messageBody := m\<rparr>) = type c"
  by simp_all

section \<open>The lines of a JSON body\<close>

lemma kept_Cons: "kept (l # ls) = (if skipped l then kept ls else trim l # kept ls)"
  by (simp add: kept_def)

lemma kept_Nil_scan: "kept ls = [] \<Longrightarrow> scan H i ls st = Inr st"
proof (induction ls arbitrary: i)
  case Nil
  then show ?case by simp
next
  case (Cons l ls)
  then have "skipped l" "kept ls = []" by (auto simp: kept_Cons split: if_splits)
  with Cons.IH show ?case by (simp add: skipped_def step_def)
qed

lemma brace_start_line:
  assumes "startsWith ''{'' ln"
  shows "ln \<noteq> [] \<and> \<not> startsWith ''#'' ln \<and> commandBlockPattern ln = None \<and>
         profilePattern ln = None \<and> regionPattern ln = None"
proof -
  obtain r where "ln = CHR ''{'' # r" using assms by (cases ln) (auto simp: startsWith_def)
  then show ?thesis
    by (simp add: startsWith_def commandBlockPattern_def match_keyword_def strip_prefix_def
          profilePattern_def regionPattern_def after_key_def)
qed

lemma step_body_start:
  assumes "startsWith ''{'' (trim ol)" "currentCommand st = Some c" "type c = SEND"
    "\<not> inJsonBody st"
  shows "step H i ol st =
     Inr (st\<lparr>inJsonBody := True, jsonStartLine := i, bracesCount := 1,
             commandBodyLines := commandBodyLines st @ [trim ol]\<rparr>)"
proof -
  from brace_start_line[OF assms(1)] have b: "trim ol \<noteq> []" "\<not> startsWith ''#'' (trim ol)"
    "commandBlockPattern (trim ol) = None" "profilePattern (trim ol) = None"
    "regionPattern (trim ol) = None" by auto
  then have "\<not> skipped ol" "\<not> is_header ol" by (auto simp: skipped_def is_header_def)
  then show ?thesis using assms b
    by (simp add: step_other param_branch_def param_branch_live)
qed

lemma receive_param_keeps:
  "receive_param ln c = Some c1 \<Longrightarrow> type c1 = type c \<and> messageBody c1 = messageBody c"
  by (auto simp: receive_param_def split: option.splits)

lemma param_branch_param_only:
  assumes "\<not> startsWith ''#'' ln" "\<not> (type c = SEND \<and> startsWith ''{'' ln)"
    "currentCommand st = Some c"
  shows "\<exists>c1. param_branch H i ln c st = Inr (st\<lparr>currentCommand := Some c1\<rparr>) \<and>
              type c1 = type c \<and> messageBody c1 = messageBody c"
proof (cases "profilePattern ln")
  case (Some v)
  then show ?thesis
    by (intro exI[of _ "c\<lparr>profile := trim v\<rparr>"]) (simp add: param_branch_def)
next
  case np: None
  show ?thesis
  proof (cases "regionPattern ln")
    case (Some v)
    with np show ?thesis
      by (intro exI[of _ "c\<lparr>region := trim v\<rparr>"]) (simp add: param_branch_def)
  next
    case nr: None
    show ?thesis
    proof (cases "if type c = RECEIVE then receive_param ln c else None")
      case (Some c1)
      then have "type c1 = type c \<and> messageBody c1 = messageBody c"
        by (auto split: if_splits dest: receive_param_keeps)
      with np nr Some show ?thesis
        by (intro exI[of _ c1]) (simp add: param_branch_def)
    next
      case None
      have "st\<lparr>currentCommand := Some c\<rparr> = st" using assms(3) by simp
      with np nr None assms(1,2) show ?thesis
        by (intro exI[of _ c]) (auto simp: param_branch_def param_branch_live)
    qed
  qed
qed

lemma step_param_only:
  assumes "\<not> is_header raw" "\<not> (type c = SEND \<and> startsWith ''{'' (trim raw))"
    "currentCommand st = Some c" "\<not> inJsonBody st"
  shows "\<exists>c1. step H i raw st = Inr (st\<lparr>currentCommand := Some c1\<rparr>) \<and> type c1 = type c \<and>
              messageBody c1 = messageBody c"
proof (cases "skipped raw")
  case True
  then have "step H i raw st = Inr st" by (simp add: skipped_def step_def)
  moreover have "st\<lparr>currentCommand := Some c\<rparr> = st" using assms(3) by simp
  ultimately show ?thesis by metis
next
  case False
  then have nc: "\<not> startsWith ''#'' (trim raw)" by (simp add: skipped_def)
  from param_branch_param_only[OF nc assms(2,3), of H i] assms False show ?thesis
    by (simp add: step_other)
qed

lemma scan_param_only:
  "\<forall>l \<in> set mid. \<not> is_header l \<and> \<not> startsWith ''{'' (trim l) \<Longrightarrow>
   currentCommand st = Some c \<Longrightarrow> \<not> inJsonBody st \<Longrightarrow>
   \<exists>c1. scan H i mid st = Inr (st\<lparr>currentCommand := Some c1\<rparr>) \<and> type c1 = type c \<and>
        messageBody c1 = messageBody c"
proof (induction mid arbitrary: i st c)
  case Nil
  then show ?case by (metis pstate.surjective pstate.update_convs(1) scan.simps(1))
next
  case (Cons raw rest)
  from Cons.prems(1) have a: "\<not> is_header raw" "\<not> (type c = SEND \<and> startsWith ''{'' (trim raw))"
    and r: "\<forall>l \<in> set rest. \<not> is_header l \<and> \<not> startsWith ''{'' (trim l)" by auto
  from step_param_only[OF a Cons.prems(2,3), of H i] obtain c0 where
    c0: "step H i raw st = Inr (st\<lparr>currentCommand := Some c0\<rparr>)" "type c0 = type c"
        "messageBody c0 = messageBody c" by blast
  have "currentCommand (st\<lparr>currentCommand := Some c0\<rparr>) = Some c0"
       "\<not> inJsonBody (st\<lparr>currentCommand := Some c0\<rparr>)" using Cons.prems(3) by simp_all
  from Cons.IH[OF r this, of "i + 1"] obtain c1 where
    "scan H (i + 1) rest (st\<lparr>currentCommand := Some c0\<rparr>) =
       Inr (st\<lparr>currentCommand := Some c0\<rparr>\<lparr>currentCommand := Some c1\<rparr>)"
    "type c1 = type c0" "messageBody c1 = messageBody c0" by blast
  with c0 show ?case by auto
qed

lemma json_branch_open:
  "countBraces (bracesCount st) ln \<noteq> 0 \<Longrightarrow>
   json_branch H ln st =
     st\<lparr>commandBodyLines := commandBodyLines st @ [ln],
        bracesCount := countBraces (bracesCount st) ln\<rparr>"
  by (simp add: json_branch_def Let_def)

lemma json_branch_close:
  "countBraces (bracesCount st) ln = 0 \<Longrightarrow> currentCommand st = Some c \<Longrightarrow> type c = SEND \<Longrightarrow>
   json_branch H ln st =
     st\<lparr>commandBodyLines := commandBodyLines st @ [ln], bracesCount := 0, inJsonBody := False,
        currentCommand := Some (try_parse_body H (commandBodyLines st @ [ln]) c)\<rparr>"
  by (simp add: json_branch_def Let_def)

lemma step_in_body:
  assumes "\<not> is_header raw" "\<not> skipped raw" "currentCommand st = Some c" "inJsonBody st"
  shows "step H i raw st = Inr (json_branch H (trim raw) st)"
  using assms by (simp add: step_other)

lemma scan_body_open:
  "\<forall>l \<in> set ls. \<not> is_header l \<Longrightarrow> currentCommand st = Some c \<Longrightarrow> inJsonBody st \<Longrightarrow>
   stays_open (bracesCount st) (kept ls) \<Longrightarrow>
   scan H i ls st =
     Inr (st\<lparr>commandBodyLines := commandBodyLines st @ kept ls,
             bracesCount := foldl countBraces (bracesCount st) (kept ls)\<rparr>)"
proof (induction ls arbitrary: i st)
  case Nil
  then show ?case by (simp add: kept_def)
next
  case (Cons l ls)
  show ?case
  proof (cases "skipped l")
    case True
    then have "step H i l st = Inr st" by (simp add: skipped_def step_def)
    with True Cons show ?thesis by (simp add: kept_Cons)
  next
    case False
    let ?st = "st\<lparr>commandBodyLines := commandBodyLines st @ [trim l],
                  bracesCount := countBraces (bracesCount st) (trim l)\<rparr>"
    from False Cons.prems(4) have o: "countBraces (bracesCount st) (trim l) \<noteq> 0"
      "stays_open (bracesCount ?st) (kept ls)" by (simp_all add: kept_Cons)
    from Cons.prems(1) have nh: "\<not> is_header l" "\<forall>l \<in> set ls. \<not> is_header l" by auto
    have s: "step H i l st = Inr ?st"
      using step_in_body[OF nh(1) False Cons.prems(2,3)] json_branch_open[OF o(1)] by simp
    have "currentCommand ?st = Some c" "inJsonBody ?st" using Cons.prems(2,3) by simp_all
    from Cons.IH[OF nh(2) this o(2), of "i + 1"] s False show ?thesis
      by (simp add: kept_Cons)
  qed
qed

lemma scan_body_last:
  "\<forall>l \<in> set ls. \<not> is_header l \<Longrightarrow> currentCommand st = Some c \<Longrightarrow> type c = SEND \<Longrightarrow>
   inJsonBody st \<Longrightarrow> stays_open (bracesCount st) (butlast (kept ls)) \<Longrightarrow>
   \<exists>st1. scan H i ls st = Inr st1 \<and>
     commandBodyLines st1 = commandBodyLines st @ kept ls \<and>
     (currentCommand st1 = Some c \<or>
      kept ls \<noteq> [] \<and>
      currentCommand st1 = Some (try_parse_body H (commandBodyLines st @ kept ls) c))"
proof (induction ls arbitrary: i st)
  case Nil
  then show ?case by (simp add: kept_def)
next
  case (Cons l ls)
  from Cons.prems(1) have nh: "\<not> is_header l" "\<forall>l \<in> set ls. \<not> is_header l" by auto
  show ?case
  proof (cases "skipped l")
    case True
    then have "step H i l st = Inr st" by (simp add: skipped_def step_def)
    with True Cons.IH[OF nh(2) Cons.prems(2,3,4), of "i + 1"] Cons.prems(5) show ?thesis
      by (simp add: kept_Cons)
  next
    case False
    have s: "step H i l st = Inr (json_branch H (trim l) st)"
      by (rule step_in_body[OF nh(1) False Cons.prems(2,4)])
    show ?thesis
    proof (cases "kept ls = []")
      case True
      then have r: "scan H (i + 1) ls (json_branch H (trim l) st) = Inr (json_branch H (trim l) st)"
        by (rule kept_Nil_scan)
      show ?thesis
      proof (cases "countBraces (bracesCount st) (trim l) = 0")
        case z: True
        from json_branch_close[OF z Cons.prems(2,3), of H] s r True False show ?thesis
          by (simp add: kept_Cons)
      next
        case nz: False
        from json_branch_open[OF nz, of H] s r True False Cons.prems(2) show ?thesis
          by (simp add: kept_Cons)
      qed
    next
      case ne: False
      let ?st = "st\<lparr>commandBodyLines := commandBodyLines st @ [trim l],
                    bracesCount := countBraces (bracesCount st) (trim l)\<rparr>"
      from ne False Cons.prems(5) have o: "countBraces (bracesCount st) (trim l) \<noteq> 0"
        "stays_open (bracesCount ?st) (butlast (kept ls))" by (simp_all add: kept_Cons)
      have s2: "step H i l st = Inr ?st" using s json_branch_open[OF o(1), of H] by simp
      have "currentCommand ?st = Some c" "inJsonBody ?st" using Cons.prems(2,4) by simp_all
      from Cons.IH[OF nh(2) this(1) Cons.prems(3) this(2) o(2), of "i + 1"] s2 False
      show ?thesis by (auto simp: kept_Cons)
    qed
  qed
qed

lemma brace_line_not_header: "startsWith ''{'' (trim l) \<Longrightarrow> \<not> is_header l"
  by (simp add: is_header_def brace_start_line)

lemma send_block_open:
  assumes "commandBlockPattern (trim h) = Some (SEND, u)"
    "\<forall>l \<in> set mid. \<not> is_header l \<and> \<not> startsWith ''{'' (trim l)"
    "startsWith ''{'' (trim ol)"
  shows "\<exists>t c1. scan H 0 (h # mid @ [ol]) init_state = Inr t \<and> currentCommand t = Some c1 \<and>
           type c1 = SEND \<and> messageBody c1 = None \<and> inJsonBody t \<and> bracesCount t = 1 \<and>
           commandBodyLines t = [trim ol]"
proof -
  let ?c = "\<lparr>type = SEND, queueUrl = u, profile = or_default (defaultProfile H) ''default'',
             region = or_default (defaultRegion H) ''us-east-1'',
             messageBody = None, messageAttributes = None, maxMessages = None,
             visibilityTimeout = None, waitTimeSeconds = None, range_cmd = None\<rparr>"
  let ?t0 = "init_state\<lparr>currentCommand := Some ?c, commandBodyStartLine := 0\<rparr> :: 'a pstate"
  have h: "step H 0 h init_state = Inr ?t0" by (rule step_first_header[OF assms(1)])
  have "currentCommand ?t0 = Some ?c" "\<not> inJsonBody ?t0" by (simp_all add: init_state_def)
  from scan_param_only[OF assms(2) this, of H 1] obtain c1 where
    c1: "scan H 1 mid ?t0 = Inr (?t0\<lparr>currentCommand := Some c1\<rparr>)" "type c1 = SEND"
        "messageBody c1 = None" by auto
  let ?t1 = "?t0\<lparr>currentCommand := Some c1\<rparr>"
  have "currentCommand ?t1 = Some c1" "\<not> inJsonBody ?t1" by (simp_all add: init_state_def)
  from step_body_start[OF assms(3) this(1) c1(2) this(2), of H "1 + int (length mid)"]
  have o: "step H (1 + int (length mid)) ol ?t1 =
     Inr (?t1\<lparr>inJsonBody := True, jsonStartLine := 1 + int (length mid), bracesCount := 1,
             commandBodyLines := commandBodyLines ?t1 @ [trim ol]\<rparr>)" .
  have "scan H 0 (h # mid @ [ol]) init_state =
     Inr (?t1\<lparr>inJsonBody := True, jsonStartLine := 1 + int (length mid), bracesCount := 1,
             commandBodyLines := commandBodyLines ?t1 @ [trim ol]\<rparr>)"
    using h c1(1) o by (simp add: scan_append)
  then show ?thesis using c1(2,3) by (simp add: init_state_def)
qed

lemma scan_snoc_block:
  "scan H 0 (h # mid @ ol # rest) init_state =
     (case scan H 0 (h # mid @ [ol]) init_state of
        Inl e \<Rightarrow> Inl e
      | Inr t \<Rightarrow> scan H (2 + int (length mid)) rest t)"
proof -
  show ?thesis
    using scan_append[of H 0 "h # mid @ [ol]" rest init_state]
    by (cases "scan H 0 (h # mid @ [ol]) init_state") (simp_all del: scan.simps)
qed

lemma send_block_stays_open:
  assumes "commandBlockPattern (trim h) = Some (SEND, u)"
    "\<forall>l \<in> set mid. \<not> is_header l \<and> \<not> startsWith ''{'' (trim l)"
    "startsWith ''{'' (trim ol)" "\<forall>l \<in> set rest. \<not> is_header l"
    "stays_open 1 (kept rest)"
  shows "\<exists>t c1. scan H 0 (h # mid @ ol # rest) init_state = Inr t \<and>
           currentCommand t = Some c1 \<and> type c1 = SEND \<and> messageBody c1 = None \<and>
           inJsonBody t \<and> commandBodyLines t = trim ol # kept rest"
proof -
  from send_block_open[OF assms(1,2,3), of H] obtain t c1 where
    t: "scan H 0 (h # mid @ [ol]) init_state = Inr t" "currentCommand t = Some c1"
       "type c1 = SEND" "messageBody c1 = None" "inJsonBody t" "bracesCount t = 1"
       "commandBodyLines t = [trim ol]" by blast
  from assms(5) t(6) have so: "stays_open (bracesCount t) (kept rest)" by simp
  have e: "scan H 0 (h # mid @ ol # rest) init_state = scan H (2 + int (length mid)) rest t"
    using scan_snoc_block[of H h mid ol rest] t(1) by (simp del: scan.simps)
  from scan_body_open[OF assms(4) t(2,5) so, of H "2 + int (length mid)"] t(2-7)
  show ?thesis by (simp add: e del: scan.simps)
qed

lemma send_block_last:
  assumes "commandBlockPattern (trim h) = Some (SEND, u)"
    "\<forall>l \<in> set mid. \<not> is_header l \<and> \<not> startsWith ''{'' (trim l)"
    "startsWith ''{'' (trim ol)" "\<forall>l \<in> set rest. \<not> is_header l"
    "stays_open 1 (butlast (kept rest))"
  shows "\<exists>t c0 c1. scan H 0 (h # mid @ ol # rest) init_state = Inr t \<and>
           currentCommand t = Some c0 \<and> type c1 = SEND \<and> messageBody c1 = None \<and>
           commandBodyLines t = trim ol # kept rest \<and>
           (c0 = c1 \<or> c0 = try_parse_body H (trim ol # kept rest) c1)"
proof -
  from send_block_open[OF assms(1,2,3), of H] obtain t c1 where
    t: "scan H 0 (h # mid @ [ol]) init_state = Inr t" "currentCommand t = Some c1"
       "type c1 = SEND" "messageBody c1 = None" "inJsonBody t" "bracesCount t = 1"
       "commandBodyLines t = [trim ol]" by blast
  from assms(5) t(6) have "stays_open (bracesCount t) (butlast (kept rest))" by simp
  from scan_body_last[OF assms(4) t(2,3,5) this, of H "2 + int (length mid)"] obtain t1 where
    "scan H (2 + int (length mid)) rest t = Inr t1"
    "commandBodyLines t1 = commandBodyLines t @ kept rest"
    "currentCommand t1 = Some c1 \<or>
      kept rest \<noteq> [] \<and>
      currentCommand t1 = Some (try_parse_body H (commandBodyLines t @ kept rest) c1)" by blast
  moreover
  have e: "scan H 0 (h # mid @ ol # rest) init_state = scan H (2 + int (length mid)) rest t"
    using scan_snoc_block[of H h mid ol rest] t(1) by (simp del: scan.simps)
  ultimately show ?thesis using t(2-7) by (auto simp: e simp del: scan.simps)
qed

lemma sealed_body_parse:
  assumes "type c1 = SEND" "messageBody c1 = None" "bl \<noteq> []"
    "c0 = c1 \<or> c0 = try_parse_body H bl c1"
  shows "type c0 = SEND \<and> sealed_body H c0 bl = JSON_parse H (join_lines bl)"
  using assms
  by (auto simp: sealed_body_def try_parse_body_def body_missing_def split: option.splits)

lemma block_no_header:
  assumes "\<forall>l \<in> set mid. \<not> is_header l \<and> \<not> startsWith ''{'' (trim l)"
    "startsWith ''{'' (trim ol)" "\<forall>l \<in> set rest. \<not> is_header l"
  shows "\<forall>l \<in> set (mid @ ol # rest). \<not> is_header l"
  using assms by (auto dest: brace_line_not_header)

section \<open>A text that continues an accepted text\<close>

lemma run_tokens_extra:
  "run_tokens m st ts = Some v \<Longrightarrow> run_tokens m st (ts @ u # us) = None"
proof (induction ts arbitrary: m st)
  case Nil
  then show ?case by (cases m) (simp_all add: tok_step_def)
next
  case (Cons t ts)
  then show ?case by (auto split: option.splits)
qed

lemma lex_start_progress:
  assumes "lex_start c = Some ([], m1)"
    "c \<noteq> CHR 0x20" "c \<noteq> CHR 0x09" "c \<noteq> CHR 0x0A" "c \<noteq> CHR 0x0D"
  shows "m1 \<noteq> LStart"
  using assms by (auto simp: lex_start_def split: if_splits)

lemma num_step_progress: "num_step ph a c = Some ([], m1) \<Longrightarrow> m1 \<noteq> LStart"
  by (cases ph) (auto simp: num_step_def num_end_def split: if_splits option.splits)

lemma lex_step_progress:
  assumes "lex_step m c = Some ([], m1)" "m \<noteq> LStart"
  shows "m1 \<noteq> LStart"
proof (cases m)
  case LStart
  with assms show ?thesis by simp
next
  case (LStr acc)
  with assms show ?thesis by (auto simp: lex_step_def split: if_splits)
next
  case (LEsc acc)
  with assms show ?thesis by (auto simp: lex_step_def split: if_splits option.splits)
next
  case (LHex acc ds)
  with assms show ?thesis by (auto simp: lex_step_def split: if_splits option.splits)
next
  case (LNum ph a)
  with assms show ?thesis by (auto simp: lex_step_def dest: num_step_progress)
next
  case (LLit ex t)
  with assms show ?thesis by (auto simp: lex_step_def split: if_splits list.splits)
qed

lemma lex_nonempty:
  "lex m r = Some us \<Longrightarrow> m \<noteq> LStart \<Longrightarrow> us \<noteq> []"
proof (induction r arbitrary: m us)
  case Nil
  then show ?case by (cases m) (auto simp: lex_end_def split: if_splits)
next
  case (Cons c cs)
  from Cons.prems(1) obtain ts m1 us2 where
    s: "lex_step m c = Some (ts, m1)" "lex m1 cs = Some us2" "us = ts @ us2"
    by (auto split: option.splits)
  show ?case
  proof (cases "ts = []")
    case True
    with s(1) Cons.prems(2) have "m1 \<noteq> LStart" by (auto dest: lex_step_progress)
    from Cons.IH[OF s(2) this] s(3) show ?thesis by simp
  next
    case False
    with s(3) show ?thesis by simp
  qed
qed

lemma lex_start_nonempty:
  assumes "lex LStart (c # cs) = Some us"
    "c \<noteq> CHR 0x20" "c \<noteq> CHR 0x09" "c \<noteq> CHR 0x0A" "c \<noteq> CHR 0x0D"
  shows "us \<noteq> []"
proof -
  from assms(1) obtain ts m1 us2 where
    s: "lex_start c = Some (ts, m1)" "lex m1 cs = Some us2" "us = ts @ us2"
    by (auto simp: lex_step_def split: option.splits)
  show ?thesis
  proof (cases "ts = []")
    case True
    with s(1) assms(2-5) have "m1 \<noteq> LStart" by (auto dest: lex_start_progress)
    from lex_nonempty[OF s(2) this] s(3) show ?thesis by simp
  next
    case False
    with s(3) show ?thesis by simp
  qed
qed

lemma lex_end_newline:
  "lex_end m = Some ts \<Longrightarrow> lex_step m (CHR 0x0A) = Some (ts, LStart)"
  by (cases m)
     (auto simp: lex_end_def lex_step_def lex_start_def num_step_def num_end_def is_e_def
                 is_digit_def
           split: if_splits numphase.splits)

lemma lex_extension:
  assumes "c \<noteq> CHR 0x20" "c \<noteq> CHR 0x09" "c \<noteq> CHR 0x0A" "c \<noteq> CHR 0x0D"
  shows "lex m t = Some ts \<Longrightarrow>
    lex m (t @ CHR 0x0A # c # r) = None \<or>
    (\<exists>us. us \<noteq> [] \<and> lex m (t @ CHR 0x0A # c # r) = Some (ts @ us))"
proof (induction t arbitrary: m ts)
  case Nil
  then have e: "lex_step m (CHR 0x0A) = Some (ts, LStart)" by (simp add: lex_end_newline)
  show ?case
  proof (cases "lex LStart (c # r)")
    case None
    with e show ?thesis by simp
  next
    case (Some us)
    from lex_start_nonempty[OF Some assms] Some e show ?thesis by simp
  qed
next
  case (Cons x t)
  from Cons.prems obtain ts1 m1 ts2 where
    s: "lex_step m x = Some (ts1, m1)" "lex m1 t = Some ts2" "ts = ts1 @ ts2"
    by (auto split: option.splits)
  from Cons.IH[OF s(2)] s(1,3) show ?case by auto
qed

lemma json_parse_extension:
  assumes "json_parse t = Some v" "r \<noteq> []" "\<not> is_ws (hd r)"
  shows "json_parse (t @ CHR 0x0A # r) = None"
proof -
  obtain c cs where r: "r = c # cs" using assms(2) by (cases r) auto
  with assms(3) have c: "c \<noteq> CHR 0x20" "c \<noteq> CHR 0x09" "c \<noteq> CHR 0x0A" "c \<noteq> CHR 0x0D"
    by (auto simp: is_ws_def)
  from assms(1) obtain ts where ts: "lex LStart t = Some ts" "run_tokens MValue [] ts = Some v"
    by (auto simp: json_parse_def split: option.splits)
  from lex_extension[OF c ts(1), of cs] show ?thesis
  proof
    assume "lex LStart (t @ CHR 0x0A # c # cs) = None"
    then show ?thesis by (simp add: json_parse_def r)
  next
    assume "\<exists>us. us \<noteq> [] \<and> lex LStart (t @ CHR 0x0A # c # cs) = Some (ts @ us)"
    then obtain us where us: "us \<noteq> []" "lex LStart (t @ CHR 0x0A # c # cs) = Some (ts @ us)"
      by blast
    then obtain u us' where "us = u # us'" by (cases us) auto
    with us(2) run_tokens_extra[OF ts(2), of u us'] show ?thesis
      by (simp add: json_parse_def r)
  qed
qed

section \<open>Lines after a closed body\<close>

lemma not_skipped_trim_head:
  assumes "\<not> skipped l"
  shows "trim l \<noteq> [] \<and> \<not> is_ws (hd (trim l))"
proof -
  let ?d = "dropWhile is_ws l"
  from assms have ne: "trim l \<noteq> []" by (simp add: skipped_def)
  have d: "?d \<noteq> []"
  proof
    assume e: "?d = []"
    have "trim l = []" by (simp only: trim_def e rev.simps dropWhile.simps)
    with ne show False by simp
  qed
  from d have h: "\<not> is_ws (hd ?d)" by (rule hd_dropWhile)
  obtain a as where da: "?d = a # as" using d by (cases ?d) auto
  with h have a: "\<not> is_ws a" by simp
  have "rev ?d = rev as @ [a]" using da by simp
  then have "dropWhile is_ws (rev ?d) =
      (if \<forall>x \<in> set (rev as). is_ws x then [a] else dropWhile is_ws (rev as) @ [a])"
    using a by (simp add: dropWhile_append)
  then have "hd (trim l) = a" by (auto simp: trim_def split: if_splits)
  with ne a show ?thesis by simp
qed

lemma join_lines_append:
  "B \<noteq> [] \<Longrightarrow> xs \<noteq> [] \<Longrightarrow> join_lines (B @ xs) = join_lines B @ CHR 0x0A # join_lines xs"
proof (induction B rule: join_lines.induct)
  case 1
  then show ?case by simp
next
  case (2 l)
  then show ?case by (cases xs) simp_all
next
  case (3 l m ls)
  then show ?case by simp
qed

lemma join_lines_hd: "x \<noteq> [] \<Longrightarrow> join_lines (x # xs) \<noteq> [] \<and> hd (join_lines (x # xs)) = hd x"
  by (cases xs) simp_all

lemma stored_param:
  "stored H B v st \<Longrightarrow> currentCommand st = Some c \<Longrightarrow> type c1 = type c \<Longrightarrow>
   messageBody c1 = messageBody c \<Longrightarrow> stored H B v (st\<lparr>currentCommand := Some c1\<rparr>)"
  by (auto simp: stored_def)

lemma stored_append:
  assumes "stored H B v st" "ln \<noteq> []" "\<not> is_ws (hd ln)"
    "currentCommand st1 = currentCommand st" "commandBodyLines st1 = commandBodyLines st @ [ln]"
  shows "stored H B v st1"
proof -
  from assms(1) obtain c xs where
    s: "currentCommand st = Some c" "type c = SEND" "messageBody c = Some v"
       "commandBodyLines st = B @ xs" "\<forall>x \<in> set xs. x \<noteq> [] \<and> \<not> is_ws (hd x)"
    by (auto simp: stored_def)
  have "commandBodyLines st1 = B @ (xs @ [ln])" using assms(5) s(4) by simp
  moreover have "\<forall>x \<in> set (xs @ [ln]). x \<noteq> [] \<and> \<not> is_ws (hd x)" using s(5) assms(2,3) by auto
  ultimately show ?thesis using s(1,2,3) assms(4) unfolding stored_def by metis
qed

lemma stored_json_branch:
  assumes "stored H B v st" "B \<noteq> []" "ln \<noteq> []" "\<not> is_ws (hd ln)"
    "\<forall>r. r \<noteq> [] \<and> \<not> is_ws (hd r) \<longrightarrow> JSON_parse H (join_lines B @ CHR 0x0A # r) = None"
  shows "stored H B v (json_branch H ln st)"
proof -
  from assms(1) obtain c xs where
    s: "currentCommand st = Some c" "type c = SEND" "messageBody c = Some v"
       "commandBodyLines st = B @ xs" "\<forall>x \<in> set xs. x \<noteq> [] \<and> \<not> is_ws (hd x)"
    by (auto simp: stored_def)
  let ?ys = "xs @ [ln]"
  have ne: "?ys \<noteq> []" by simp
  have hdne: "hd ?ys \<noteq> [] \<and> \<not> is_ws (hd (hd ?ys))" using s(5) assms(3,4) by (cases xs) auto
  obtain y ys where y: "?ys = y # ys" by (cases ?ys) auto
  with hdne have "join_lines ?ys \<noteq> [] \<and> hd (join_lines ?ys) = hd y" "\<not> is_ws (hd y)"
    using join_lines_hd[of y ys] by auto
  with assms(5) have "JSON_parse H (join_lines B @ CHR 0x0A # join_lines ?ys) = None" by simp
  then have p: "JSON_parse H (join_lines (commandBodyLines st @ [ln])) = None"
    using join_lines_append[OF assms(2) ne] s(4) by simp
  then have t: "try_parse_body H (commandBodyLines st @ [ln]) c = c"
    by (simp add: try_parse_body_def)
  have "currentCommand (json_branch H ln st) = currentCommand st"
       "commandBodyLines (json_branch H ln st) = commandBodyLines st @ [ln]"
    using s(1,2) t by (simp_all add: json_branch_def Let_def)
  from stored_append[OF assms(1,3,4) this] show ?thesis .
qed

lemma step_stored:
  assumes "\<not> is_header raw" "stored H B v st" "B \<noteq> []"
    "\<forall>r. r \<noteq> [] \<and> \<not> is_ws (hd r) \<longrightarrow> JSON_parse H (join_lines B @ CHR 0x0A # r) = None"
  shows "\<exists>st1. step H i raw st = Inr st1 \<and> stored H B v st1"
proof (cases "skipped raw")
  case True
  with assms(2) show ?thesis by (simp add: skipped_def step_def)
next
  case False
  from not_skipped_trim_head[OF False] have t: "trim raw \<noteq> []" "\<not> is_ws (hd (trim raw))"
    by simp_all
  from assms(2) obtain c where c: "currentCommand st = Some c" "type c = SEND"
    by (auto simp: stored_def)
  show ?thesis
  proof (cases "inJsonBody st")
    case True
    from step_in_body[OF assms(1) False c(1) True, of H i]
      stored_json_branch[OF assms(2,3) t assms(4)] show ?thesis by simp
  next
    case nj: False
    show ?thesis
    proof (cases "startsWith ''{'' (trim raw)")
      case True
      from step_body_start[OF True c nj, of H i] have
        s: "step H i raw st =
            Inr (st\<lparr>inJsonBody := True, jsonStartLine := i, bracesCount := 1,
                    commandBodyLines := commandBodyLines st @ [trim raw]\<rparr>)" .
      have "stored H B v (st\<lparr>inJsonBody := True, jsonStartLine := i, bracesCount := 1,
                    commandBodyLines := commandBodyLines st @ [trim raw]\<rparr>)"
        by (rule stored_append[OF assms(2) t]) simp_all
      with s show ?thesis by simp
    next
      case np: False
      then have "\<not> (type c = SEND \<and> startsWith ''{'' (trim raw))" by simp
      from step_param_only[OF assms(1) this c(1) nj, of H i] obtain c1 where
        c1: "step H i raw st = Inr (st\<lparr>currentCommand := Some c1\<rparr>)" "type c1 = type c"
            "messageBody c1 = messageBody c" by blast
      from stored_param[OF assms(2) c(1) c1(2,3)] c1(1) show ?thesis by simp
    qed
  qed
qed

lemma scan_stored:
  "\<forall>l \<in> set ls. \<not> is_header l \<Longrightarrow> stored H B v st \<Longrightarrow> B \<noteq> [] \<Longrightarrow>
   \<forall>r. r \<noteq> [] \<and> \<not> is_ws (hd r) \<longrightarrow> JSON_parse H (join_lines B @ CHR 0x0A # r) = None \<Longrightarrow>
   \<exists>st1. scan H i ls st = Inr st1 \<and> stored H B v st1"
proof (induction ls arbitrary: i st)
  case Nil
  then show ?case by simp
next
  case (Cons l ls)
  from Cons.prems(1) have nh: "\<not> is_header l" "\<forall>l \<in> set ls. \<not> is_header l" by auto
  from step_stored[OF nh(1) Cons.prems(2,3,4), of i] obtain st0 where
    "step H i l st = Inr st0" "stored H B v st0" by blast
  with Cons.IH[OF nh(2) this(2) Cons.prems(3,4), of "i + 1"] show ?case by simp
qed

lemma scan_body_closed:
  "\<forall>l \<in> set ls. \<not> is_header l \<Longrightarrow> currentCommand st = Some c \<Longrightarrow> type c = SEND \<Longrightarrow>
   inJsonBody st \<Longrightarrow> stays_open (bracesCount st) (butlast (kept ls)) \<Longrightarrow>
   kept ls \<noteq> [] \<Longrightarrow> foldl countBraces (bracesCount st) (kept ls) = 0 \<Longrightarrow>
   \<exists>st1. scan H i ls st = Inr st1 \<and>
     commandBodyLines st1 = commandBodyLines st @ kept ls \<and>
     currentCommand st1 = Some (try_parse_body H (commandBodyLines st @ kept ls) c)"
proof (induction ls arbitrary: i st)
  case Nil
  then show ?case by (simp add: kept_def)
next
  case (Cons l ls)
  from Cons.prems(1) have nh: "\<not> is_header l" "\<forall>l \<in> set ls. \<not> is_header l" by auto
  show ?case
  proof (cases "skipped l")
    case True
    then have "step H i l st = Inr st" by (simp add: skipped_def step_def)
    with True Cons.IH[OF nh(2) Cons.prems(2,3,4), of "i + 1"] Cons.prems(5,6,7) show ?thesis
      by (simp add: kept_Cons)
  next
    case False
    have s: "step H i l st = Inr (json_branch H (trim l) st)"
      by (rule step_in_body[OF nh(1) False Cons.prems(2,4)])
    show ?thesis
    proof (cases "kept ls = []")
      case True
      then have r: "scan H (i + 1) ls (json_branch H (trim l) st) = Inr (json_branch H (trim l) st)"
        by (rule kept_Nil_scan)
      from True False Cons.prems(7) have z: "countBraces (bracesCount st) (trim l) = 0"
        by (simp add: kept_Cons)
      from json_branch_close[OF z Cons.prems(2,3), of H] s r True False show ?thesis
        by (simp add: kept_Cons)
    next
      case ne: False
      let ?st = "st\<lparr>commandBodyLines := commandBodyLines st @ [trim l],
                    bracesCount := countBraces (bracesCount st) (trim l)\<rparr>"
      from ne False Cons.prems(5) have o: "countBraces (bracesCount st) (trim l) \<noteq> 0"
        "stays_open (bracesCount ?st) (butlast (kept ls))" by (simp_all add: kept_Cons)
      from False Cons.prems(7) have f: "foldl countBraces (bracesCount ?st) (kept ls) = 0"
        by (simp add: kept_Cons)
      have s2: "step H i l st = Inr ?st" using s json_branch_open[OF o(1), of H] by simp
      have "currentCommand ?st = Some c" "inJsonBody ?st" using Cons.prems(2,4) by simp_all
      from Cons.IH[OF nh(2) this(1) Cons.prems(3) this(2) o(2) ne f, of "i + 1"] s2 False
      show ?thesis by (auto simp: kept_Cons)
    qed
  qed
qed

lemma send_block_object:
  assumes "commandBlockPattern (trim h) = Some (SEND, u)"
    "\<forall>l \<in> set mid. \<not> is_header l \<and> \<not> startsWith ''{'' (trim l)"
    "startsWith ''{'' (trim ol)"
    "\<forall>l \<in> set body. \<not> is_header l"
    "stays_open 1 (butlast (kept body))"
    "\<forall>l \<in> set after. \<not> is_header l"
    "kept after \<noteq> [] \<longrightarrow>
       kept body \<noteq> [] \<and> foldl countBraces 1 (kept body) = 0 \<and>
       (\<exists>v. JSON_parse H (join_lines (trim ol # kept body)) = Some v \<and> truthy H v) \<and>
       (\<forall>r. r \<noteq> [] \<and> \<not> is_ws (hd r) \<longrightarrow>
            JSON_parse H (join_lines (trim ol # kept body) @ CHR 0x0A # r) = None)"
  shows "\<exists>t c0. scan H 0 (h # mid @ ol # body @ after) init_state = Inr t \<and>
           currentCommand t = Some c0 \<and> type c0 = SEND \<and>
           sealed_body H c0 (commandBodyLines t) =
             JSON_parse H (join_lines (trim ol # kept body))"
proof -
  let ?B = "trim ol # kept body"
  let ?i = "2 + int (length mid)"
  from send_block_open[OF assms(1,2,3), of H] obtain t1 c1 where
    t1: "scan H 0 (h # mid @ [ol]) init_state = Inr t1" "currentCommand t1 = Some c1"
        "type c1 = SEND" "messageBody c1 = None" "inJsonBody t1" "bracesCount t1 = 1"
        "commandBodyLines t1 = [trim ol]" by blast
  have e: "scan H 0 (h # mid @ ol # body @ after) init_state =
           (case scan H ?i body t1 of
              Inl x \<Rightarrow> Inl x
            | Inr t2 \<Rightarrow> scan H (?i + int (length body)) after t2)"
    using scan_snoc_block[of H h mid ol "body @ after"] t1(1)
    by (simp add: scan_append del: scan.simps)
  from assms(5) t1(6) have so: "stays_open (bracesCount t1) (butlast (kept body))" by simp
  show ?thesis
  proof (cases "kept after = []")
    case True
    from scan_body_last[OF assms(4) t1(2,3,5) so, of H ?i] obtain t2 where
      t2: "scan H ?i body t1 = Inr t2" "commandBodyLines t2 = commandBodyLines t1 @ kept body"
          "currentCommand t2 = Some c1 \<or>
           kept body \<noteq> [] \<and>
           currentCommand t2 = Some (try_parse_body H (commandBodyLines t1 @ kept body) c1)"
      by blast
    from kept_Nil_scan[OF True, of H "?i + int (length body)" t2] t2(1) e
    have s: "scan H 0 (h # mid @ ol # body @ after) init_state = Inr t2" by simp
    from t2(3) t1(7) obtain c0 where
      c0: "currentCommand t2 = Some c0" "c0 = c1 \<or> c0 = try_parse_body H ?B c1" by auto
    from sealed_body_parse[OF t1(3,4) _ c0(2)] have
      "type c0 = SEND" "sealed_body H c0 ?B = JSON_parse H (join_lines ?B)" by simp_all
    with s c0(1) t2(2) t1(7) show ?thesis by simp
  next
    case False
    with assms(7) obtain v where
      k: "kept body \<noteq> []" "foldl countBraces 1 (kept body) = 0"
         "JSON_parse H (join_lines ?B) = Some v" "truthy H v"
         "\<forall>r. r \<noteq> [] \<and> \<not> is_ws (hd r) \<longrightarrow>
            JSON_parse H (join_lines ?B @ CHR 0x0A # r) = None" by blast
    from k(2) t1(6) have f: "foldl countBraces (bracesCount t1) (kept body) = 0" by simp
    from scan_body_closed[OF assms(4) t1(2,3,5) so k(1) f, of H ?i] t1(7) obtain t2 where
      t2: "scan H ?i body t1 = Inr t2" "commandBodyLines t2 = ?B"
          "currentCommand t2 = Some (try_parse_body H ?B c1)" by auto
    have st: "stored H ?B v t2"
      unfolding stored_def using t2(2,3) k(3) t1(3)
      by (intro exI[of _ "try_parse_body H ?B c1"] exI[of _ "[]"])
         (simp add: try_parse_body_def)
    have ne: "?B \<noteq> []" by simp
    from scan_stored[OF assms(6) st ne k(5), of "?i + int (length body)"] obtain t3 where
      t3: "scan H (?i + int (length body)) after t2 = Inr t3" "stored H ?B v t3" by blast
    from t3(2) obtain c0 where
      c0: "currentCommand t3 = Some c0" "type c0 = SEND" "messageBody c0 = Some v"
      by (auto simp: stored_def)
    have "sealed_body H c0 (commandBodyLines t3) = Some v" using c0(3) k(4)
      by (simp add: sealed_body_def body_missing_def)
    with e t2(1) t3(1) c0 k(3) show ?thesis by simp
  qed
qed

lemma object_block_no_header:
  assumes "\<forall>l \<in> set mid. \<not> is_header l \<and> \<not> startsWith ''{'' (trim l)"
    "startsWith ''{'' (trim ol)" "\<forall>l \<in> set body. \<not> is_header l"
    "\<forall>l \<in> set after. \<not> is_header l"
  shows "\<forall>l \<in> set (mid @ ol # body @ after). \<not> is_header l"
  using assms by (auto dest: brace_line_not_header)

section \<open>The delimiter line\<close>

text \<open>In every state of the scanner a delimiter line leaves the state as it is.\<close>

lemma delimiter_line_keeps_state: "trim raw = ''###'' \<Longrightarrow> step H i raw st = Inr st"
  by (simp add: step_def startsWith_def)

text \<open>
  Claim C1 says that a line \<^verbatim>\<open>###\<close> seals the open command and returns the scanner
  to its idle state. The branch that does so (source lines 110 to 123) comes after the
  test for comments (source line 33), and \<^verbatim>\<open>###\<close> starts with \<^verbatim>\<open>#\<close>: the line
  is skipped, the command stays open. On the document below the line after the
  delimiter still sets \<open>maxMessages\<close>, and the range ends on the last line of the
  document, not on line 1.
\<close>

theorem delimiter_line_is_skipped:
  \<open>parseSQSCommands (js_host None None) ''RECEIVE q\<newline>###\<newline>max-messages: 5'' =
     Inr [(fresh_command RECEIVE ''q'')
            \<lparr>maxMessages := Some 5, range_cmd := Some (lines_range 0 2)\<rparr>]\<close>
  by code_simp

section \<open>The trailing command\<close>


section \<open>The defaults of profile and region\<close>

text \<open>
  Claim C4 says that a block without a \<^verbatim>\<open>profile:\<close> and a \<^verbatim>\<open>region:\<close> line gets
  exactly the supplied defaults, the empty string included. The header branch takes
  \<^verbatim>\<open>get('defaultProfile') || 'default'\<close> and \<^verbatim>\<open>get('defaultRegion') || 'us-east-1'\<close>
  (source lines 55 and 56): an empty default is falsy and is replaced.
\<close>

theorem empty_default_is_replaced:
  \<open>map_sum id (map profile) (parseSQSCommands (js_host (Some []) (Some [])) ''PURGE q'') =
     Inr [''default''] \<and>
   map_sum id (map region) (parseSQSCommands (js_host (Some []) (Some [])) ''PURGE q'') =
     Inr [''us-east-1'']\<close>
  by code_simp

text \<open>
  Claim C4, amended. For every block (a header line, the lines \<open>blk\<close> up to the next
  header line or the end of the document) none of whose lines matches the profile or
  the region pattern, the emitted command has the configured default profile and
  region where these are set and not empty, and the fallbacks \<^verbatim>\<open>default\<close> and
  \<^verbatim>\<open>us-east-1\<close> where the configured value is unset or empty. The command comes in
  the output right after the commands of the lines before its header.
\<close>

theorem defaults_without_parameter_lines:
  assumes "split_lines doc = pre @ h # blk @ post" "is_header h"
    "\<forall>l \<in> set blk. \<not> is_header l \<and> profilePattern (trim l) = None \<and>
                      regionPattern (trim l) = None"
    "post = [] \<or> is_header (hd post)"
  shows "\<exists>cs1 c cs2. parseLines H pre = Inr cs1 \<and>
           parseSQSCommands H doc = Inr (cs1 @ c # cs2) \<and>
           profile c = or_default (defaultProfile H) ''default'' \<and>
           region c = or_default (defaultRegion H) ''us-east-1''"
proof -
  from assms(3) have nh: "\<forall>l \<in> set blk. \<not> is_header l"
    and np: "\<forall>l \<in> set blk. profilePattern (trim l) = None"
    and nr: "\<forall>l \<in> set blk. regionPattern (trim l) = None" by auto
  obtain k u where ku: "commandBlockPattern (trim h) = Some (k, u)"
    using assms(2) by (auto simp: is_header_def)
  from single_block[OF ku nh, of H] np nr obtain t c0 where
    t: "scan H 0 (h # blk) init_state = Inr t" "currentCommand t = Some c0"
       "profile c0 = or_default (defaultProfile H) ''default''"
       "region c0 = or_default (defaultRegion H) ''us-east-1''" by auto
  from block_result[OF assms(2) nh assms(4), of H pre] t(1,2) obtain cs1 cs2 where
    "parseLines H pre = Inr cs1"
    "parseLines H (pre @ h # blk @ post) =
             Inr (cs1 @
                  c0\<lparr>range_cmd := Some (lines_range (int (length pre))
                                           (int (length pre) + int (length blk))),
                     messageBody := sealed_body H c0 (commandBodyLines t)\<rparr> #
                  map (shift_cmd (int (length pre) + 1 + int (length blk))) cs2)"
    by auto
  with t(3,4) show ?thesis
    by (intro exI[of _ cs1] exI[of _ "c0\<lparr>range_cmd := Some (lines_range (int (length pre))
                                           (int (length pre) + int (length blk))),
                     messageBody := sealed_body H c0 (commandBodyLines t)\<rparr>"]
              exI[of _ "map (shift_cmd (int (length pre) + 1 + int (length blk))) cs2"])
       (simp add: parseSQSCommands_def assms(1))
qed
theorem defaults_without_parameter_lines_witness:
  \<open>split_lines ''PURGE a\<newline>RECEIVE q\<newline>max-messages: 3\<newline>###\<newline>SEND r'' =
     [''PURGE a''] @ ''RECEIVE q'' # [''max-messages: 3'', ''###''] @ [''SEND r''] \<and>
   is_header ''RECEIVE q'' \<and> is_header (hd [''SEND r'']) \<and>
   \<not> is_header ''max-messages: 3'' \<and> profilePattern (trim ''max-messages: 3'') = None \<and>
   regionPattern (trim ''max-messages: 3'') = None \<and>
   \<not> is_header ''###'' \<and> profilePattern (trim ''###'') = None \<and>
   regionPattern (trim ''###'') = None \<and>
   (\<exists>cs1 c cs2. parseLines (js_host (Some ''dev'') (Some [])) [''PURGE a''] = Inr cs1 \<and>
      parseSQSCommands (js_host (Some ''dev'') (Some []))
        ''PURGE a\<newline>RECEIVE q\<newline>max-messages: 3\<newline>###\<newline>SEND r'' = Inr (cs1 @ c # cs2) \<and>
      profile c = ''dev'' \<and> region c = ''us-east-1'')\<close>
proof -
  have 1: \<open>split_lines ''PURGE a\<newline>RECEIVE q\<newline>max-messages: 3\<newline>###\<newline>SEND r'' =
     [''PURGE a''] @ ''RECEIVE q'' # [''max-messages: 3'', ''###''] @ [''SEND r'']\<close> by code_simp
  have 2: "is_header ''RECEIVE q''" by code_simp
  have 3: \<open>\<forall>l \<in> set [''max-messages: 3'', ''###''].
            \<not> is_header l \<and> profilePattern (trim l) = None \<and> regionPattern (trim l) = None\<close>
    by code_simp
  have 4: "[''SEND r''] = [] \<or> is_header (hd [''SEND r''])" by code_simp
  have 5: "or_default (defaultProfile (js_host (Some ''dev'') (Some []))) ''default'' = ''dev''"
    "or_default (defaultRegion (js_host (Some ''dev'') (Some []))) ''us-east-1'' = ''us-east-1''"
    by (simp_all add: js_host_def or_default_def)
  from defaults_without_parameter_lines [OF 1 2 3 4, of "js_host (Some ''dev'') (Some [])"]
    1 2 3 4 show ?thesis
    by (simp only: 5) simp
qed

section \<open>The body of a SEND command\<close>

text \<open>
  Claim C5 says that after an opening line that holds a whole object the scanner stays
  in the body and appends every later line of the block. The brace count starts at 1
  whatever the opening line holds, so a later line with one more closing brace than
  opening braces brings it to 0: the body is closed there, and the lines that follow
  are read as parameter lines. On the document below the line \<^verbatim>\<open>profile: p\<close> is
  not appended; it sets the profile.
\<close>

theorem closing_brace_ends_accumulation:
  \<open>map_sum id commandBodyLines
     (scan (js_host None None) 0 (split_lines ''SEND q\<newline>{"x":1}\<newline>}\<newline>profile: p'') init_state) =
     Inr [''{"x":1}'', ''}''] \<and>
   map_sum id inJsonBody
     (scan (js_host None None) 0 (split_lines ''SEND q\<newline>{"x":1}\<newline>}\<newline>profile: p'') init_state) =
     Inr False \<and>
   map_sum id (map profile)
     (parseSQSCommands (js_host None None) ''SEND q\<newline>{"x":1}\<newline>}\<newline>profile: p'') =
     Inr [''p'']\<close>
  by code_simp

text \<open>
  Claim C5, amended. In a SEND block whose lines before the body (\<open>mid\<close>) neither
  start with a brace nor are a delimiter, the first line \<open>ol\<close> that starts with a
  brace opens the body: whatever braces the line holds, the scanner is in the body
  with a brace count of 1 and the line as the only body line. When the count, continued
  over the later lines \<open>rest\<close> of the block that are not skipped, is never 0 at the
  end of a line, the scanner is still in the body at the end of the block, the body
  lines are the opening line and all these later lines, and the body of the emitted
  command is what \<^verbatim>\<open>JSON.parse\<close> returns on them at sealing: present if and only if
  that parse succeeds, so present when no later line exists and the opening line
  parses.
\<close>

theorem single_line_body_stays_open:
  assumes "split_lines doc = pre @ h # mid @ ol # rest @ post"
    "commandBlockPattern (trim h) = Some (SEND, u)"
    "\<forall>l \<in> set mid. \<not> is_header l \<and> \<not> startsWith ''{'' (trim l)"
    "startsWith ''{'' (trim ol)"
    "\<forall>l \<in> set rest. \<not> is_header l"
    "stays_open 1 (kept rest)"
    "post = [] \<or> is_header (hd post)"
    "\<forall>l \<in> set mid. trim l \<noteq> ''###''"
  shows "\<exists>s1 s2 cs1 c cs2.
           scan H 0 (pre @ h # mid @ [ol]) init_state = Inr s1 \<and>
           inJsonBody s1 \<and> bracesCount s1 = 1 \<and> commandBodyLines s1 = [trim ol] \<and>
           scan H 0 (pre @ h # mid @ ol # rest) init_state = Inr s2 \<and>
           inJsonBody s2 \<and> commandBodyLines s2 = trim ol # kept rest \<and>
           parseLines H pre = Inr cs1 \<and>
           parseSQSCommands H doc = Inr (cs1 @ c # cs2) \<and> type c = SEND \<and>
           messageBody c = JSON_parse H (join_lines (trim ol # kept rest))"
proof -
  let ?blk = "mid @ ol # rest"
  have hd: "is_header h" using assms(2) by (simp add: is_header_def)
  have nh: "\<forall>l \<in> set ?blk. \<not> is_header l" by (rule block_no_header[OF assms(3,4,5)])
  from send_block_open[OF assms(2,3,4), of H] obtain t1 where
    t1: "scan H 0 (h # mid @ [ol]) init_state = Inr t1" "inJsonBody t1" "bracesCount t1 = 1"
        "commandBodyLines t1 = [trim ol]" by blast
  from scan_append_header[OF hd, of H pre "mid @ [ol]"] t1(1) obtain a1 s1 where
    s1: "scan H 0 (pre @ h # mid @ [ol]) init_state = Inr s1" "sim (int (length pre)) a1 s1 t1"
    by auto
  from send_block_stays_open[OF assms(2,3,4,5,6), of H] obtain t c0 where
    t: "scan H 0 (h # ?blk) init_state = Inr t" "currentCommand t = Some c0"
       "type c0 = SEND" "messageBody c0 = None" "inJsonBody t"
       "commandBodyLines t = trim ol # kept rest" by blast
  from sealed_body_parse[OF t(3,4), of "trim ol # kept rest" c0 H] have
    b: "sealed_body H c0 (trim ol # kept rest) =
        JSON_parse H (join_lines (trim ol # kept rest))" by simp
  from block_result[OF hd nh assms(7), of H pre] t(1,2,6) obtain cs1 cs2 s2 where
    r: "parseLines H pre = Inr cs1"
    "scan H 0 (pre @ h # ?blk) init_state = Inr s2" "sim (int (length pre)) cs1 s2 t"
    "parseLines H (pre @ h # ?blk @ post) =
             Inr (cs1 @
                  c0\<lparr>range_cmd := Some (lines_range (int (length pre))
                                           (int (length pre) + int (length ?blk))),
                     messageBody := sealed_body H c0 (trim ol # kept rest)\<rparr> #
                  map (shift_cmd (int (length pre) + 1 + int (length ?blk))) cs2)"
    by auto
  from sim_same[OF s1(2)] t1 have f1: "inJsonBody s1" "bracesCount s1 = 1"
    "commandBodyLines s1 = [trim ol]" by simp_all
  from sim_same[OF r(3)] t have f2: "inJsonBody s2" "commandBodyLines s2 = trim ol # kept rest"
    by simp_all
  from s1(1) f1 r(1,2) f2 r(4) b t(3) show ?thesis
    by (intro exI[of _ s1] exI[of _ s2] exI[of _ cs1]
              exI[of _ "c0\<lparr>range_cmd := Some (lines_range (int (length pre))
                                           (int (length pre) + int (length ?blk))),
                     messageBody := sealed_body H c0 (trim ol # kept rest)\<rparr>"]
              exI[of _ "map (shift_cmd (int (length pre) + 1 + int (length ?blk))) cs2"])
       (simp add: parseSQSCommands_def assms(1) del: scan.simps)
qed
theorem single_line_body_stays_open_witness:
  \<open>split_lines ''PURGE a\<newline>SEND q\<newline>region: eu\<newline>{"x":1}\<newline>note\<newline>###\<newline>PURGE r'' =
     [''PURGE a''] @ ''SEND q'' # [''region: eu''] @ ''{"x":1}'' # [''note'', ''###''] @
       [''PURGE r''] \<and>
   commandBlockPattern (trim ''SEND q'') = Some (SEND, ''q'') \<and>
   \<not> is_header ''region: eu'' \<and> \<not> startsWith ''{'' (trim ''region: eu'') \<and>
   trim ''region: eu'' \<noteq> ''###'' \<and>
   startsWith ''{'' (trim ''{"x":1}'') \<and>
   \<not> is_header ''note'' \<and> \<not> is_header ''###'' \<and>
   stays_open 1 (kept [''note'', ''###'']) \<and>
   is_header (hd [''PURGE r'']) \<and>
   (\<exists>s1 s2 cs1 c cs2.
      scan (js_host None None) 0 [''PURGE a'', ''SEND q'', ''region: eu'', ''{"x":1}'']
        init_state = Inr s1 \<and>
      inJsonBody s1 \<and> bracesCount s1 = 1 \<and> commandBodyLines s1 = [''{"x":1}''] \<and>
      scan (js_host None None) 0
        [''PURGE a'', ''SEND q'', ''region: eu'', ''{"x":1}'', ''note'', ''###'']
        init_state = Inr s2 \<and>
      inJsonBody s2 \<and> commandBodyLines s2 = [''{"x":1}'', ''note''] \<and>
      parseLines (js_host None None) [''PURGE a''] = Inr cs1 \<and>
      parseSQSCommands (js_host None None)
        ''PURGE a\<newline>SEND q\<newline>region: eu\<newline>{"x":1}\<newline>note\<newline>###\<newline>PURGE r'' =
        Inr (cs1 @ c # cs2) \<and>
      type c = SEND \<and> messageBody c = None)\<close>
proof -
  have 1: \<open>split_lines ''PURGE a\<newline>SEND q\<newline>region: eu\<newline>{"x":1}\<newline>note\<newline>###\<newline>PURGE r'' =
     [''PURGE a''] @ ''SEND q'' # [''region: eu''] @ ''{"x":1}'' # [''note'', ''###''] @
       [''PURGE r'']\<close> by code_simp
  have 2: "commandBlockPattern (trim ''SEND q'') = Some (SEND, ''q'')" by code_simp
  have 3: "\<forall>l \<in> set [''region: eu'']. \<not> is_header l \<and> \<not> startsWith ''{'' (trim l)"
    by code_simp
  have 4: \<open>startsWith ''{'' (trim ''{"x":1}'')\<close> by code_simp
  have 5: \<open>\<forall>l \<in> set [''note'', ''###'']. \<not> is_header l\<close> by code_simp
  have 6: \<open>stays_open 1 (kept [''note'', ''###''])\<close> by code_simp
  have 7: "[''PURGE r''] = [] \<or> is_header (hd [''PURGE r''])" by code_simp
  have 8: \<open>JSON_parse (js_host None None) (join_lines (trim ''{"x":1}'' # kept [''note'', ''###''])) =
            None\<close> by code_simp
  have 9: \<open>trim ''{"x":1}'' = ''{"x":1}''\<close> \<open>kept [''note'', ''###''] = [''note'']\<close>
    by code_simp+
  have 10: "\<forall>l \<in> set [''region: eu'']. trim l \<noteq> ''###''" by code_simp
  from single_line_body_stays_open [OF 1 2 3 4 5 6 7 10, of "js_host None None"]
    1 2 3 4 5 6 7 10 show ?thesis
    by (simp only: 8) (simp add: 9 del: scan.simps)
qed

text \<open>
  The brace count is taken on the characters, inside string literals too: a brace in a
  string closes the body of the object below on its second line.
\<close>

lemma brace_in_string_closes_body:
  \<open>json_parse ''{\<newline>"a": "}",\<newline>"b": 1\<newline>}'' =
     Some (JObject [([97], JString [125]), ([98], JNumber 1 0)]) \<and>
   map_sum id (map messageBody)
     (parseSQSCommands (js_host None None) ''SEND q\<newline>{\<newline>"a": "}",\<newline>"b": 1\<newline>}'') =
     Inr [None]\<close>
  by code_simp

text \<open>
  Claim C2 says that every well-formed, balanced JSON object after a SEND header is
  recovered as the body. The brace count starts at 1 on the opening line whatever
  braces that line holds. The first object below has two opening and two closing
  braces; its opening line holds both opening braces, so the count is back to 0 on the
  third of its five lines, the parse of these three lines fails, the last two lines
  are ignored and the command has no body. The second object is on one line, so the
  count stays at 1, the parameter line after it is taken into the body text, and the
  parse of the two lines fails at sealing.
\<close>

theorem balanced_object_not_recovered:
  \<open>json_parse ''{"a": {\<newline>"b": 1\<newline>},\<newline>"c": 2\<newline>}'' =
     Some (JObject [([97], JObject [([98], JNumber 1 0)]), ([99], JNumber 2 0)]) \<and>
   map_sum id (map messageBody)
     (parseSQSCommands (js_host None None)
        ''SEND q\<newline>{"a": {\<newline>"b": 1\<newline>},\<newline>"c": 2\<newline>}'') =
     Inr [None] \<and>
   json_parse ''{"x":1}'' = Some (JObject [([120], JNumber 1 0)]) \<and>
   map_sum id (map messageBody)
     (parseSQSCommands (js_host None None) ''SEND q\<newline>{"x":1}\<newline>profile: p'') =
     Inr [None]\<close>
  by code_simp

text \<open>
  Claim C2, amended. In a SEND block whose lines before the object (\<open>mid\<close>) neither
  start with a brace nor are a delimiter, let the object be the first line \<open>ol\<close> that
  starts with a brace and the lines \<open>body\<close> after it, and let \<open>after\<close> be the lines
  of the block after the object, up to the next header or the end of the document. The
  brace count starts at 1 after the opening line, whatever braces that line holds, and
  counts every brace character of the later lines. When the count is not 0 at the end
  of any line of the object but the last, and either no line that is not skipped
  follows the object in its block, or the count is 0 at the end of the last line of an
  object of several lines, then the body of the emitted command is what
  \<^verbatim>\<open>JSON.parse\<close> returns on the lines of the object (trimmed, skipped lines dropped,
  joined by line feeds): the parsed value of a well-formed object, whatever lines
  follow it in the block. For the lines that follow, two facts of \<^verbatim>\<open>JSON.parse\<close>
  are used, stated as hypotheses on the host: the value of the object is truthy, and
  no text that continues the text of the object on a further line is accepted.
\<close>

theorem object_body_recovered:
  assumes "split_lines doc = pre @ h # mid @ ol # body @ after @ post"
    "commandBlockPattern (trim h) = Some (SEND, u)"
    "\<forall>l \<in> set mid. \<not> is_header l \<and> \<not> startsWith ''{'' (trim l) \<and> trim l \<noteq> ''###''"
    "startsWith ''{'' (trim ol)"
    "\<forall>l \<in> set body. \<not> is_header l"
    "stays_open 1 (butlast (kept body))"
    "\<forall>l \<in> set after. \<not> is_header l"
    "kept after \<noteq> [] \<longrightarrow>
       kept body \<noteq> [] \<and> foldl countBraces 1 (kept body) = 0 \<and>
       (\<exists>v. JSON_parse H (join_lines (trim ol # kept body)) = Some v \<and> truthy H v) \<and>
       (\<forall>r. r \<noteq> [] \<and> \<not> is_ws (hd r) \<longrightarrow>
            JSON_parse H (join_lines (trim ol # kept body) @ CHR 0x0A # r) = None)"
    "post = [] \<or> is_header (hd post)"
  shows "\<exists>cs1 c cs2. parseLines H pre = Inr cs1 \<and>
           parseSQSCommands H doc = Inr (cs1 @ c # cs2) \<and> type c = SEND \<and>
           messageBody c = JSON_parse H (join_lines (trim ol # kept body))"
proof -
  let ?blk = "mid @ ol # body @ after"
  have hd: "is_header h" using assms(2) by (simp add: is_header_def)
  from assms(3) have m: "\<forall>l \<in> set mid. \<not> is_header l \<and> \<not> startsWith ''{'' (trim l)" by simp
  have nh: "\<forall>l \<in> set ?blk. \<not> is_header l"
    by (rule object_block_no_header[OF m assms(4,5,7)])
  from send_block_object[OF assms(2) m assms(4,5,6,7,8)] obtain t c0 where
    t: "scan H 0 (h # ?blk) init_state = Inr t" "currentCommand t = Some c0" "type c0 = SEND"
       "sealed_body H c0 (commandBodyLines t) = JSON_parse H (join_lines (trim ol # kept body))"
    by blast
  from block_result[OF hd nh assms(9), of H pre] t(1,2) obtain cs1 cs2 where
    "parseLines H pre = Inr cs1"
    "parseLines H (pre @ h # ?blk @ post) =
             Inr (cs1 @
                  c0\<lparr>range_cmd := Some (lines_range (int (length pre))
                                           (int (length pre) + int (length ?blk))),
                     messageBody := sealed_body H c0 (commandBodyLines t)\<rparr> #
                  map (shift_cmd (int (length pre) + 1 + int (length ?blk))) cs2)"
    by auto
  with t(3,4) show ?thesis
    by (intro exI[of _ cs1] exI[of _ "c0\<lparr>range_cmd := Some (lines_range (int (length pre))
                                           (int (length pre) + int (length ?blk))),
                     messageBody := sealed_body H c0 (commandBodyLines t)\<rparr>"]
              exI[of _ "map (shift_cmd (int (length pre) + 1 + int (length ?blk))) cs2"])
       (simp add: parseSQSCommands_def assms(1))
qed

theorem object_body_recovered_witness:
  \<open>split_lines ''PURGE a\<newline>SEND q\<newline>region: eu\<newline>{\<newline>  "a":1\<newline>}\<newline>profile: p\<newline>###\<newline>PURGE r'' =
     [''PURGE a''] @ ''SEND q'' # [''region: eu''] @ ''{'' # [''  "a":1'', ''}''] @
       [''profile: p'', ''###''] @ [''PURGE r''] \<and>
   commandBlockPattern (trim ''SEND q'') = Some (SEND, ''q'') \<and>
   \<not> is_header ''region: eu'' \<and> \<not> startsWith ''{'' (trim ''region: eu'') \<and>
   trim ''region: eu'' \<noteq> ''###'' \<and>
   startsWith ''{'' (trim ''{'') \<and>
   \<not> is_header ''  "a":1'' \<and> \<not> is_header ''}'' \<and>
   stays_open 1 (butlast (kept [''  "a":1'', ''}''])) \<and>
   \<not> is_header ''profile: p'' \<and> \<not> is_header ''###'' \<and>
   kept [''profile: p'', ''###''] = [''profile: p''] \<and>
   kept [''  "a":1'', ''}''] = [''"a":1'', ''}''] \<and>
   foldl countBraces 1 (kept [''  "a":1'', ''}'']) = 0 \<and>
   JSON_parse (js_host None None) (join_lines (trim ''{'' # kept [''  "a":1'', ''}''])) =
     Some (JObject [([97], JNumber 1 0)]) \<and>
   truthy (js_host None None) (JObject [([97], JNumber 1 0)]) \<and>
   is_header (hd [''PURGE r'']) \<and>
   (\<exists>cs1 c cs2. parseLines (js_host None None) [''PURGE a''] = Inr cs1 \<and>
      parseSQSCommands (js_host None None)
        ''PURGE a\<newline>SEND q\<newline>region: eu\<newline>{\<newline>  "a":1\<newline>}\<newline>profile: p\<newline>###\<newline>PURGE r'' =
        Inr (cs1 @ c # cs2) \<and>
      type c = SEND \<and>
      messageBody c = Some (JObject [([97], JNumber 1 0)]))\<close>
proof -
  have 1: \<open>split_lines ''PURGE a\<newline>SEND q\<newline>region: eu\<newline>{\<newline>  "a":1\<newline>}\<newline>profile: p\<newline>###\<newline>PURGE r'' =
     [''PURGE a''] @ ''SEND q'' # [''region: eu''] @ ''{'' # [''  "a":1'', ''}''] @
       [''profile: p'', ''###''] @ [''PURGE r'']\<close> by code_simp
  have 2: "commandBlockPattern (trim ''SEND q'') = Some (SEND, ''q'')" by code_simp
  have 3: "\<forall>l \<in> set [''region: eu''].
             \<not> is_header l \<and> \<not> startsWith ''{'' (trim l) \<and> trim l \<noteq> ''###''"
    by code_simp
  have 4: "startsWith ''{'' (trim ''{'')" by code_simp
  have 5: \<open>\<forall>l \<in> set [''  "a":1'', ''}'']. \<not> is_header l\<close> by code_simp
  have 6: \<open>stays_open 1 (butlast (kept [''  "a":1'', ''}'']))\<close> by code_simp
  have 7: \<open>\<forall>l \<in> set [''profile: p'', ''###'']. \<not> is_header l\<close> by code_simp
  have k: \<open>kept [''profile: p'', ''###''] = [''profile: p'']\<close>
    \<open>kept [''  "a":1'', ''}''] = [''"a":1'', ''}'']\<close> by code_simp+
  have f: \<open>foldl countBraces 1 (kept [''  "a":1'', ''}'']) = 0\<close> by code_simp
  have p: \<open>JSON_parse (js_host None None) (join_lines (trim ''{'' # kept [''  "a":1'', ''}''])) =
     Some (JObject [([97], JNumber 1 0)])\<close> by code_simp
  have t: "truthy (js_host None None) (JObject [([97], JNumber 1 0)])"
    by (simp add: js_host_def)
  have x: \<open>\<forall>r. r \<noteq> [] \<and> \<not> is_ws (hd r) \<longrightarrow>
            JSON_parse (js_host None None)
              (join_lines (trim ''{'' # kept [''  "a":1'', ''}'']) @ CHR 0x0A # r) = None\<close>
  proof (intro allI impI)
    fix r :: string
    assume r: "r \<noteq> [] \<and> \<not> is_ws (hd r)"
    from p have \<open>json_parse (join_lines (trim ''{'' # kept [''  "a":1'', ''}''])) =
        Some (JObject [([97], JNumber 1 0)])\<close> by (simp add: js_host_def)
    from json_parse_extension[OF this, of r] r
    show \<open>JSON_parse (js_host None None)
            (join_lines (trim ''{'' # kept [''  "a":1'', ''}'']) @ CHR 0x0A # r) = None\<close>
      by (simp add: js_host_def)
  qed
  have 8: \<open>kept [''profile: p'', ''###''] \<noteq> [] \<longrightarrow>
       kept [''  "a":1'', ''}''] \<noteq> [] \<and> foldl countBraces 1 (kept [''  "a":1'', ''}'']) = 0 \<and>
       (\<exists>v. JSON_parse (js_host None None)
               (join_lines (trim ''{'' # kept [''  "a":1'', ''}''])) = Some v \<and>
            truthy (js_host None None) v) \<and>
       (\<forall>r. r \<noteq> [] \<and> \<not> is_ws (hd r) \<longrightarrow>
            JSON_parse (js_host None None)
              (join_lines (trim ''{'' # kept [''  "a":1'', ''}'']) @ CHR 0x0A # r) = None)\<close>
    using f p t x by (simp add: k(2))
  have 9: "[''PURGE r''] = [] \<or> is_header (hd [''PURGE r''])" by code_simp
  from object_body_recovered [OF 1 2 3 4 5 6 7 8 9] 1 2 3 4 5 6 7 k f p t 9 show ?thesis
    by (simp only: p) simp
qed

text \<open>
  Claim C7 says that a SEND block whose accumulated body text is unbalanced or not
  valid JSON is emitted without a body. A body stored when the brace count came back
  to 0 is kept: a later line that starts with a brace opens the body again and adds
  to the same body lines, and at sealing the parse is not attempted once more
  (\<^verbatim>\<open>!command.messageBody\<close>, source line 175). On the document below the accumulated
  text is not valid JSON and the command has the body of its first three body lines.
\<close>

theorem body_kept_after_second_start:
  \<open>map_sum id commandBodyLines
     (scan (js_host None None) 0 (split_lines ''SEND q\<newline>{\<newline>"a":1\<newline>}\<newline>{'') init_state) =
     Inr [''{'', ''"a":1'', ''}'', ''{''] \<and>
   json_parse (join_lines [''{'', ''"a":1'', ''}'', ''{'']) = None \<and>
   map_sum id (map messageBody)
     (parseSQSCommands (js_host None None) ''SEND q\<newline>{\<newline>"a":1\<newline>}\<newline>{'') =
     Inr [Some (JObject [([97], JNumber 1 0)])]\<close>
  by code_simp

text \<open>
  Claim C7, amended. For every block at whose end the open command has no body yet
  (no parse attempted where the brace count came back to 0 has succeeded) and whose
  accumulated body lines \<open>commandBodyLines s\<close> are not accepted by \<^verbatim>\<open>JSON.parse\<close>,
  the command is still emitted, without a body, right after the commands of the lines
  before its header, and the commands of the blocks that follow are the ones that the
  parser gives on these blocks alone, their ranges moved to their place in the
  document.
\<close>

theorem unstored_unparsable_body_is_absent:
  assumes "split_lines doc = pre @ h # blk @ post" "is_header h"
    "\<forall>l \<in> set blk. \<not> is_header l" "post = [] \<or> is_header (hd post)"
    "scan H 0 (pre @ h # blk) init_state = Inr s"
    "currentCommand s = Some c0" "messageBody c0 = None"
    "JSON_parse H (join_lines (commandBodyLines s)) = None"
  shows "\<exists>cs1 c cs2. parseLines H pre = Inr cs1 \<and> parseLines H post = Inr cs2 \<and>
           parseSQSCommands H doc =
             Inr (cs1 @ c # map (shift_cmd (int (length pre) + 1 + int (length blk))) cs2) \<and>
           messageBody c = None"
proof -
  from block_result[OF assms(2,3,4), of H pre] assms(5) obtain cs1 cs2 t c1 where
    r: "parseLines H pre = Inr cs1" "parseLines H post = Inr cs2"
    "sim (int (length pre)) cs1 s t" "currentCommand t = Some c1"
    "parseLines H (pre @ h # blk @ post) =
             Inr (cs1 @
                  c1\<lparr>range_cmd := Some (lines_range (int (length pre))
                                           (int (length pre) + int (length blk))),
                     messageBody := sealed_body H c1 (commandBodyLines t)\<rparr> #
                  map (shift_cmd (int (length pre) + 1 + int (length blk))) cs2)"
    by auto
  from sim_same[OF r(3)] r(4) assms(6) have
    e: "c1 = c0" "commandBodyLines t = commandBodyLines s" by simp_all
  have "sealed_body H c1 (commandBodyLines t) = None"
    using e assms(7,8) by (simp add: sealed_body_def)
  with r show ?thesis
    by (intro exI[of _ cs1] exI[of _ "c1\<lparr>range_cmd := Some (lines_range (int (length pre))
                                           (int (length pre) + int (length blk))),
                     messageBody := sealed_body H c1 (commandBodyLines t)\<rparr>"]
              exI[of _ cs2])
       (simp add: parseSQSCommands_def assms(1))
qed

theorem unstored_unparsable_body_is_absent_witness:
  \<open>split_lines ''PURGE a\<newline>SEND q\<newline>{"x":1}\<newline>note\<newline>###\<newline>PURGE r'' =
     [''PURGE a''] @ ''SEND q'' # [''{"x":1}'', ''note'', ''###''] @ [''PURGE r''] \<and>
   is_header ''SEND q'' \<and> \<not> is_header ''{"x":1}'' \<and> \<not> is_header ''note'' \<and>
   \<not> is_header ''###'' \<and> is_header (hd [''PURGE r'']) \<and>
   scan (js_host None None) 0
     ([''PURGE a''] @ ''SEND q'' # [''{"x":1}'', ''note'', ''###'']) init_state =
     Inr \<lparr>currentCommand = Some (fresh_command SEND ''q''), commandBodyStartLine = 1,
          commandBodyLines = [''{"x":1}'', ''note''], inJsonBody = True, jsonStartLine = 2,
          bracesCount = 1,
          commands = [(fresh_command PURGE ''a'')\<lparr>range_cmd := Some (lines_range 0 0)\<rparr>]\<rparr> \<and>
   messageBody (fresh_command SEND ''q'') = None \<and>
   json_parse (join_lines [''{"x":1}'', ''note'']) = None \<and>
   json_parse ''{"x":1}'' = Some (JObject [([120], JNumber 1 0)]) \<and>
   (\<exists>cs1 c cs2. parseLines (js_host None None) [''PURGE a''] = Inr cs1 \<and>
      parseLines (js_host None None) [''PURGE r''] = Inr cs2 \<and>
      parseSQSCommands (js_host None None)
        ''PURGE a\<newline>SEND q\<newline>{"x":1}\<newline>note\<newline>###\<newline>PURGE r'' =
        Inr (cs1 @ c # map (shift_cmd 5) cs2) \<and>
      messageBody c = None)\<close>
proof -
  let ?s = \<open>\<lparr>currentCommand = Some (fresh_command SEND ''q''), commandBodyStartLine = 1,
          commandBodyLines = [''{"x":1}'', ''note''], inJsonBody = True, jsonStartLine = 2,
          bracesCount = 1,
          commands = [(fresh_command PURGE ''a'')\<lparr>range_cmd := Some (lines_range 0 0)\<rparr>]\<rparr>
          :: json pstate\<close>
  have 1: \<open>split_lines ''PURGE a\<newline>SEND q\<newline>{"x":1}\<newline>note\<newline>###\<newline>PURGE r'' =
     [''PURGE a''] @ ''SEND q'' # [''{"x":1}'', ''note'', ''###''] @ [''PURGE r'']\<close>
    by code_simp
  have 2: "is_header ''SEND q''" by code_simp
  have 3: \<open>\<forall>l \<in> set [''{"x":1}'', ''note'', ''###'']. \<not> is_header l\<close> by code_simp
  have 4: "[''PURGE r''] = [] \<or> is_header (hd [''PURGE r''])" by code_simp
  have 5: \<open>scan (js_host None None) 0
     ([''PURGE a''] @ ''SEND q'' # [''{"x":1}'', ''note'', ''###'']) init_state = Inr ?s\<close>
    by code_simp
  have 6: "currentCommand ?s = Some (fresh_command SEND ''q'')" by simp
  have 7: "messageBody (fresh_command SEND ''q'') = None" by (simp add: fresh_command_def)
  have j: \<open>json_parse (join_lines [''{"x":1}'', ''note'']) = None\<close>
    \<open>json_parse ''{"x":1}'' = Some (JObject [([120], JNumber 1 0)])\<close> by code_simp+
  have 8: \<open>JSON_parse (js_host None None) (join_lines (commandBodyLines ?s)) = None\<close>
    using j(1) by (simp add: js_host_def)
  have 9: \<open>int (length [''PURGE a'']) + 1 + int (length [''{"x":1}'', ''note'', ''###'']) = 5\<close>
    by simp
  from unstored_unparsable_body_is_absent [OF 1 2 3 4 5 6 7 8] 1 2 3 4 5 7 j show ?thesis
    by (simp only: 9) (simp del: scan.simps)
qed

end
